theory Spec2Isabelle
  imports Main "HOL-Library.Word" "HOL-Library.AList" "HOL-Library.Monad_Syntax"
begin

unbundle bit_operations_syntax

section \<open>Data model of \<open>World.cpp\<close>\<close>

type_synonym uint8 = "8 word"
type_synonym uint32 = "32 word"
type_synonym int32 = "32 word"   \<comment> \<open>read with \<open>sint\<close>, compared with \<open><s\<close>\<close>

text \<open>
  A \<open>WorldSession*\<close> is an address; \<open>NULL\<close> is address 0. The session objects live in
  an explicit store (\<open>heap\<close>), so that the session map and the wait-queue can hold the
  same address and \<open>delete\<close> can invalidate it.
\<close>

type_synonym ptr = nat

definition NULL :: ptr where
  "NULL = 0"

text \<open>
  Modelled from the spec: the enum \<open>AccountTypes\<close> (Common.h) is not part of the source
  at hand. The spec's privilege tiers; \<open>SEC_PLAYER\<close> is the plain-player tier.
\<close>

datatype AccountTypes =
  SEC_PLAYER | SEC_MODERATOR | SEC_GAMEMASTER | SEC_ADMINISTRATOR | SEC_CONSOLE

fun AccountTypes_value :: "AccountTypes \<Rightarrow> int32" where
  "AccountTypes_value SEC_PLAYER = 0"
| "AccountTypes_value SEC_MODERATOR = 1"
| "AccountTypes_value SEC_GAMEMASTER = 2"
| "AccountTypes_value SEC_ADMINISTRATOR = 3"
| "AccountTypes_value SEC_CONSOLE = 4"

text \<open>
  Modelled from the spec: class \<open>WorldSession\<close> (WorldSession.h) is not part of the
  source at hand. The record has the attributes of the spec's Session that \<open>World.cpp\<close>
  reads or writes: \<open>GetAccountId()\<close>, \<open>GetSecurity()\<close>, \<open>SetInQueue(bool)\<close> and
  \<open>PlayerLoading()\<close>.
\<close>

record WorldSession =
  accountId :: nat
  security :: AccountTypes
  inQueue :: bool
  playerLoading :: bool

datatype ServerMessageType =
  SERVER_MSG_SHUTDOWN_TIME | SERVER_MSG_RESTART_TIME
| SERVER_MSG_SHUTDOWN_CANCELLED | SERVER_MSG_RESTART_CANCELLED

text \<open>
  What the functions send or do to the outside is recorded, in order, in a trace:
  packets to one session, broadcasts, closing a socket, freeing a session object and the
  statement sent to the login database.
\<close>

datatype event =
  AuthOk ptr                       \<comment> \<open>\<open>SMSG_AUTH_RESPONSE\<close> with \<open>AUTH_OK\<close> sent to the session\<close>
| AuthWaitQueue ptr uint32         \<comment> \<open>\<open>SMSG_AUTH_RESPONSE\<close> with \<open>AUTH_WAIT_QUEUE\<close> and a position\<close>
| AuthWaitQue ptr uint32           \<comment> \<open>\<open>sess->SendAuthWaitQue(position)\<close>\<close>
| Kicked ptr                       \<comment> \<open>\<open>sess->KickPlayer()\<close>\<close>
| Deleted ptr                      \<comment> \<open>\<open>delete sess\<close>\<close>
| ServerMessage ServerMessageType "uint32 option" ptr
                                   \<comment> \<open>\<open>SendServerMessage(msgid, secsToTimeString(timer), player)\<close>\<close>
| PopulationUpdate uint32 uint32   \<comment> \<open>\<open>UPDATE realmlist SET population\<close>: active count, limit\<close>

text \<open>
  Modelled from the spec: class \<open>IntervalTimer\<close> (Timer.h) is not part of the source at
  hand. The spec gives a timer a fixed period and a current counter, which
  \<open>World.cpp\<close> reads with \<open>GetCurrent()\<close> and writes with \<open>SetCurrent()\<close>.
\<close>

record IntervalTimer =
  interval :: int
  current :: int

record World =
  heap :: "ptr \<Rightarrow> WorldSession option"
  m_sessions :: "(nat \<times> ptr) list"       \<comment> \<open>\<open>std::map<uint32, WorldSession*>\<close>: unique keys\<close>
  m_QueuedSessions :: "ptr list"           \<comment> \<open>\<open>std::list<WorldSession*>\<close>\<close>
  addSessQueue :: "ptr list"
  m_playerLimit :: int32
  m_maxActiveSessionCount :: uint32
  m_maxQueuedSessionCount :: uint32
  m_ShutdownMask :: uint32
  m_ShutdownTimer :: uint32
  m_stopEvent :: bool
  m_ExitCode :: uint8
  m_gameTime :: int
  m_timers :: "IntervalTimer list"
  events :: "event list"

text \<open>
  Modelled from the spec: the enums \<open>ShutdownMask\<close> and \<open>ShutdownExitCode\<close> (World.h)
  and \<open>TimeConstants\<close> (Common.h) are not part of the source at hand. The restart and
  idle-wait flags are two distinct bits of the mask, the default exit code is the one
  the static initialiser stores, and a minute has 60 and an hour 3600 seconds.
\<close>

definition SHUTDOWN_MASK_RESTART :: uint32 where
  "SHUTDOWN_MASK_RESTART = 1"

definition SHUTDOWN_MASK_IDLE :: uint32 where
  "SHUTDOWN_MASK_IDLE = 2"

definition SHUTDOWN_EXIT_CODE :: uint8 where
  "SHUTDOWN_EXIT_CODE = 0"

definition MINUTE :: uint32 where
  "MINUTE = 60"

definition HOUR :: uint32 where
  "HOUR = MINUTE * 60"

text \<open>
  Modelled from the spec: the inline counters of World.h are not part of the source at
  hand. \<open>UpdateMaxSessionCounters\<close> in \<open>World.cpp\<close> computes the active count as
  \<open>m_sessions.size() - m_QueuedSessions.size()\<close> and the queued count as
  \<open>m_QueuedSessions.size()\<close>; the active-plus-queued count is the size of the session
  map, and the amount limit is the capacity when it is not negative (a negative capacity
  encodes a privilege tier) and 0, unlimited, otherwise.
\<close>

definition GetActiveAndQueuedSessionCount :: "World \<Rightarrow> uint32" where
  "GetActiveAndQueuedSessionCount w = of_nat (length (m_sessions w))"

definition GetQueuedSessionCount :: "World \<Rightarrow> uint32" where
  "GetQueuedSessionCount w = of_nat (length (m_QueuedSessions w))"

definition GetActiveSessionCount :: "World \<Rightarrow> uint32" where
  "GetActiveSessionCount w =
     of_nat (length (m_sessions w)) - of_nat (length (m_QueuedSessions w))"

definition GetPlayerAmountLimit :: "World \<Rightarrow> uint32" where
  "GetPlayerAmountLimit w = (if 0 \<le>s m_playerLimit w then m_playerLimit w else 0)"

definition emit :: "event \<Rightarrow> World \<Rightarrow> World" where
  "emit e w = w\<lparr>events := events w @ [e]\<rparr>"

section \<open>Shutdown controller\<close>

definition SendServerMessage :: "ServerMessageType \<Rightarrow> uint32 option \<Rightarrow> ptr \<Rightarrow> World \<Rightarrow> World" where
  "SendServerMessage msgid str player w = emit (ServerMessage msgid str player) w"

text \<open>\<open>World::ShutdownMsg(bool show, Player* player)\<close>.\<close>

definition ShutdownMsg :: "bool \<Rightarrow> ptr \<Rightarrow> World \<Rightarrow> World" where
  "ShutdownMsg show player w =
     (if m_ShutdownMask w AND SHUTDOWN_MASK_IDLE \<noteq> 0 then w
      else if show
        \<or> (m_ShutdownTimer w < 5 * MINUTE \<and> m_ShutdownTimer w mod 15 = 0)
        \<or> (m_ShutdownTimer w < 15 * MINUTE \<and> m_ShutdownTimer w mod MINUTE = 0)
        \<or> (m_ShutdownTimer w < 30 * MINUTE \<and> m_ShutdownTimer w mod (5 * MINUTE) = 0)
        \<or> (m_ShutdownTimer w < 12 * HOUR \<and> m_ShutdownTimer w mod HOUR = 0)
        \<or> (m_ShutdownTimer w \<ge> 12 * HOUR \<and> m_ShutdownTimer w mod (12 * HOUR) = 0)
      then
        SendServerMessage
          (if m_ShutdownMask w AND SHUTDOWN_MASK_RESTART \<noteq> 0
           then SERVER_MSG_RESTART_TIME else SERVER_MSG_SHUTDOWN_TIME)
          (Some (m_ShutdownTimer w)) player w
      else w)"

text \<open>
  \<open>World::_UpdateGameTime()\<close>; \<open>thisTime\<close> is what \<open>time(NULL)\<close> returns, and
  \<open>elapsed\<close> is the difference cast to \<open>uint32\<close>.
\<close>

definition UpdateGameTime :: "int \<Rightarrow> World \<Rightarrow> World" where
  "UpdateGameTime thisTime w0 =
     (let elapsed = (word_of_int (thisTime - m_gameTime w0) :: uint32);
          w = w0\<lparr>m_gameTime := thisTime\<rparr>
      in if \<not> m_stopEvent w \<and> m_ShutdownTimer w > 0 \<and> elapsed > 0 then
           if m_ShutdownTimer w \<le> elapsed then
             if m_ShutdownMask w AND SHUTDOWN_MASK_IDLE = 0
                \<or> GetActiveAndQueuedSessionCount w = 0
             then w\<lparr>m_stopEvent := True\<rparr>
             else w\<lparr>m_ShutdownTimer := 1\<rparr>
           else ShutdownMsg False NULL (w\<lparr>m_ShutdownTimer := m_ShutdownTimer w - elapsed\<rparr>)
         else w)"

text \<open>\<open>World::ShutdownServ(uint32 time, uint32 options, uint8 exitcode)\<close>.\<close>

definition ShutdownServ :: "uint32 \<Rightarrow> uint32 \<Rightarrow> uint8 \<Rightarrow> World \<Rightarrow> World" where
  "ShutdownServ time options exitcode w0 =
     (if m_stopEvent w0 then w0
      else
        let w = w0\<lparr>m_ShutdownMask := options, m_ExitCode := exitcode\<rparr>
        in if time = 0 then
             if options AND SHUTDOWN_MASK_IDLE = 0 \<or> GetActiveAndQueuedSessionCount w = 0
             then w\<lparr>m_stopEvent := True\<rparr>
             else w\<lparr>m_ShutdownTimer := 1\<rparr>
           else ShutdownMsg True NULL (w\<lparr>m_ShutdownTimer := time\<rparr>))"

text \<open>\<open>World::ShutdownCancel()\<close>.\<close>

definition ShutdownCancel :: "World \<Rightarrow> World" where
  "ShutdownCancel w =
     (if m_ShutdownTimer w = 0 \<or> m_stopEvent w then w
      else
        let msgid = (if m_ShutdownMask w AND SHUTDOWN_MASK_RESTART \<noteq> 0
                     then SERVER_MSG_RESTART_CANCELLED else SERVER_MSG_SHUTDOWN_CANCELLED)
        in SendServerMessage msgid None NULL
             (w\<lparr>m_ShutdownMask := 0, m_ShutdownTimer := 0, m_ExitCode := SHUTDOWN_EXIT_CODE\<rparr>))"

text \<open>
  The three states the spec gives the controller, read off the fields: Firing when the
  stop event is set, Counting when a timer is pending, Idle otherwise.
\<close>

datatype ShutdownState = Idle | Counting | Firing

definition shutdown_state :: "World \<Rightarrow> ShutdownState" where
  "shutdown_state w =
     (if m_stopEvent w then Firing else if m_ShutdownTimer w \<noteq> 0 then Counting else Idle)"

text \<open>The operations that touch the controller, and a run of them.\<close>

datatype shutdown_op =
  Request uint32 uint32 uint8 | Cancel | Tick int

fun shutdown_step :: "shutdown_op \<Rightarrow> World \<Rightarrow> World" where
  "shutdown_step (Request time options exitcode) w = ShutdownServ time options exitcode w"
| "shutdown_step Cancel w = ShutdownCancel w"
| "shutdown_step (Tick thisTime) w = UpdateGameTime thisTime w"

fun shutdown_run :: "shutdown_op list \<Rightarrow> World \<Rightarrow> World" where
  "shutdown_run [] w = w"
| "shutdown_run (x # xs) w = shutdown_run xs (shutdown_step x w)"

text \<open>
  The milestone table in the spec's words: every 15 s under 5 minutes remaining, every
  minute under 15 minutes, every 5 minutes under 30 minutes, every hour under 12 hours,
  every 12 hours otherwise. Times are seconds.
\<close>

definition milestone :: "nat \<Rightarrow> bool" where
  "milestone t =
     (if t < 5 * 60 then t mod 15 = 0
      else if t < 15 * 60 then t mod 60 = 0
      else if t < 30 * 60 then t mod (5 * 60) = 0
      else if t < 12 * 3600 then t mod 3600 = 0
      else t mod (12 * 3600) = 0)"

section \<open>Interval timers\<close>

text \<open>
  The timer loop at the head of \<open>World::Update(uint32 diff)\<close>. Class \<open>IntervalTimer\<close>
  (Timer.h) is not part of the source at hand: its \<open>Update(diff)\<close> is the parameter
  \<open>upd\<close>, \<open>GetCurrent\<close> and \<open>SetCurrent\<close> read and write the counter.
\<close>

definition Update_timer :: "(IntervalTimer \<Rightarrow> uint32 \<Rightarrow> IntervalTimer) \<Rightarrow> uint32 \<Rightarrow> IntervalTimer \<Rightarrow> IntervalTimer" where
  "Update_timer upd diff t = (if current t \<ge> 0 then upd t diff else t\<lparr>current := 0\<rparr>)"

definition Update_timers :: "(IntervalTimer \<Rightarrow> uint32 \<Rightarrow> IntervalTimer) \<Rightarrow> uint32 \<Rightarrow> World \<Rightarrow> World" where
  "Update_timers upd diff w = w\<lparr>m_timers := map (Update_timer upd diff) (m_timers w)\<rparr>"


text \<open>
  Modelled from the spec: \<open>IntervalTimer::Update\<close> (Timer.h) is not part of the source
  at hand; the spec's words are that a timer is advanced by the elapsed milliseconds.
\<close>

definition IntervalTimer_Update :: "IntervalTimer \<Rightarrow> uint32 \<Rightarrow> IntervalTimer" where
  "IntervalTimer_Update t diff = t\<lparr>current := current t + uint diff\<rparr>"

text \<open>
  The constructor \<open>World::World()\<close> with the static initialisers of \<open>m_stopEvent\<close> and
  \<open>m_ExitCode\<close>; \<open>thisTime\<close> is what \<open>time(NULL)\<close> returns and \<open>timers\<close> the
  default-constructed timer array.
\<close>

definition World_new :: "int \<Rightarrow> IntervalTimer list \<Rightarrow> World" where
  "World_new thisTime timers =
     \<lparr>heap = (\<lambda>_. None), m_sessions = [], m_QueuedSessions = [], addSessQueue = [],
      m_playerLimit = 0, m_maxActiveSessionCount = 0, m_maxQueuedSessionCount = 0,
      m_ShutdownMask = 0, m_ShutdownTimer = 0, m_stopEvent = False,
      m_ExitCode = SHUTDOWN_EXIT_CODE, m_gameTime = thisTime, m_timers = timers,
      events = []\<rparr>"

section \<open>Session directory and admission\<close>

text \<open>
  Calls through a session pointer. The result \<open>None\<close> stands for a call through a
  pointer that holds no session object (never allocated, or deleted), which the C++ code
  must not make.
\<close>

definition KickPlayer :: "ptr \<Rightarrow> World \<Rightarrow> World option" where
  "KickPlayer p w = (if heap w p = None then None else Some (emit (Kicked p) w))"

definition SendPacket :: "ptr \<Rightarrow> event \<Rightarrow> World \<Rightarrow> World option" where
  "SendPacket p packet w = (if heap w p = None then None else Some (emit packet w))"

definition SendAuthWaitQue :: "ptr \<Rightarrow> uint32 \<Rightarrow> World \<Rightarrow> World option" where
  "SendAuthWaitQue p position w = SendPacket p (AuthWaitQue p position) w"

definition SetInQueue :: "ptr \<Rightarrow> bool \<Rightarrow> World \<Rightarrow> World option" where
  "SetInQueue p state w =
     (case heap w p of
        None \<Rightarrow> None
      | Some sess \<Rightarrow> Some (w\<lparr>heap := (heap w)(p \<mapsto> sess\<lparr>inQueue := state\<rparr>)\<rparr>))"

text \<open>\<open>delete p\<close>: nothing for \<open>NULL\<close>, otherwise the object is gone from the store.\<close>

definition delete_session :: "ptr \<Rightarrow> World \<Rightarrow> World option" where
  "delete_session p w =
     (if p = NULL then Some w
      else if heap w p = None then None
      else Some (emit (Deleted p) (w\<lparr>heap := (heap w)(p := None)\<rparr>)))"

text \<open>\<open>World::RemoveSession(uint32 id)\<close>.\<close>

definition RemoveSession :: "nat \<Rightarrow> World \<Rightarrow> (bool \<times> World) option" where
  "RemoveSession account w =
     (case map_of (m_sessions w) account of
        Some p \<Rightarrow>
          if p \<noteq> NULL then
            do { sess \<leftarrow> heap w p;
                 if playerLoading sess then Some (False, w)
                 else do { w' \<leftarrow> KickPlayer p w; Some (True, w') } }
          else Some (True, w)
      | None \<Rightarrow> Some (True, w))"

text \<open>\<open>World::AddSession(WorldSession* s)\<close>: the hand-over queue drained by the tick.\<close>

definition AddSession :: "ptr \<Rightarrow> World \<Rightarrow> World" where
  "AddSession s w = w\<lparr>addSessQueue := addSessQueue w @ [s]\<rparr>"

text \<open>
  \<open>World::GetQueuedSessionPos(WorldSession* sess)\<close>: the loop over the queue with its
  \<open>uint32\<close> counter, started at 1.
\<close>

fun queue_pos :: "ptr list \<Rightarrow> uint32 \<Rightarrow> ptr \<Rightarrow> int32" where
  "queue_pos [] position sess = 0"
| "queue_pos (x # xs) position sess =
     (if x = sess then position else queue_pos xs (position + 1) sess)"

definition GetQueuedSessionPos :: "World \<Rightarrow> ptr \<Rightarrow> int32" where
  "GetQueuedSessionPos w sess = queue_pos (m_QueuedSessions w) 1 sess"

text \<open>\<open>World::AddQueuedSession(WorldSession* sess)\<close>.\<close>

definition AddQueuedSession :: "ptr \<Rightarrow> World \<Rightarrow> World option" where
  "AddQueuedSession sess w =
     do { w1 \<leftarrow> SetInQueue sess True w;
          let w2 = w1\<lparr>m_QueuedSessions := m_QueuedSessions w1 @ [sess]\<rparr>;
          SendPacket sess (AuthWaitQueue sess (GetQueuedSessionPos w2 sess)) w2 }"

text \<open>
  The search loop of \<open>RemoveQueuedSession\<close>: whether the session was found, the queue
  before the erased entry, the queue from the iterator on (after the erased entry, or
  empty at \<open>end()\<close>), and the position counter.
\<close>

fun search_queue :: "ptr list \<Rightarrow> ptr \<Rightarrow> uint32 \<Rightarrow> bool \<times> ptr list \<times> ptr list \<times> uint32" where
  "search_queue [] sess position = (False, [], [], position)"
| "search_queue (x # xs) sess position =
     (if x = sess then (True, [], xs, position)
      else case search_queue xs sess (position + 1) of
             (found, before, iter, position') \<Rightarrow> (found, x # before, iter, position'))"

text \<open>The closing loop: each session from the iterator on is sent its position.\<close>

fun send_positions :: "ptr list \<Rightarrow> uint32 \<Rightarrow> World \<Rightarrow> World option" where
  "send_positions [] position w = Some w"
| "send_positions (x # xs) position w =
     do { w' \<leftarrow> SendAuthWaitQue x position w; send_positions xs (position + 1) w' }"

text \<open>\<open>World::RemoveQueuedSession(WorldSession* sess)\<close>.\<close>

definition RemoveQueuedSession :: "ptr \<Rightarrow> World \<Rightarrow> (bool \<times> World) option" where
  "RemoveQueuedSession sess w0 =
     (let sessions = GetActiveSessionCount w0 in
      case search_queue (m_QueuedSessions w0) sess 1 of
        (found, before, iter, position) \<Rightarrow>
          do { w1 \<leftarrow> (if found then SetInQueue sess False w0 else Some w0);
               let w2 = w1\<lparr>m_QueuedSessions := before @ iter\<rparr>;
               let sessions = (if \<not> found \<and> sessions \<noteq> 0 then sessions - 1 else sessions);
               if (m_playerLimit w2 = 0 \<or> sessions <s m_playerLimit w2)
                  \<and> m_QueuedSessions w2 \<noteq> []
               then
                 do { let pop_sess = hd (m_QueuedSessions w2);
                      w3 \<leftarrow> SetInQueue pop_sess False w2;
                      w4 \<leftarrow> SendAuthWaitQue pop_sess 0 w3;
                      let w5 = w4\<lparr>m_QueuedSessions := tl (m_QueuedSessions w4)\<rparr>;
                      w6 \<leftarrow> send_positions (m_QueuedSessions w5) 1 w5;
                      Some (found, w6) }
               else
                 do { w6 \<leftarrow> send_positions iter position w2;
                      Some (found, w6) } })"

text \<open>\<open>World::UpdateMaxSessionCounters()\<close>.\<close>

definition UpdateMaxSessionCounters :: "World \<Rightarrow> World" where
  "UpdateMaxSessionCounters w =
     w\<lparr>m_maxActiveSessionCount :=
         max (m_maxActiveSessionCount w)
             (of_nat (length (m_sessions w)) - of_nat (length (m_QueuedSessions w))),
       m_maxQueuedSessionCount :=
         max (m_maxQueuedSessionCount w) (of_nat (length (m_QueuedSessions w)))\<rparr>"

text \<open>
  \<open>World::AddSession_(WorldSession* s)\<close>, named \<open>AddSession_impl\<close> here since a
  name cannot end in an underscore. \<open>None\<close> is the failed \<open>MANGOS_ASSERT(s)\<close> or a
  call through a pointer without object. \<open>m_sessions[id] = s\<close> replaces the entry of
  the key or adds one.
\<close>

definition AddSession_impl :: "ptr \<Rightarrow> World \<Rightarrow> World option" where
  "AddSession_impl s w0 =
     (if s = NULL then None
      else
        do { sess \<leftarrow> heap w0 s;
             (removed, w1) \<leftarrow> RemoveSession (accountId sess) w0;
             if \<not> removed then
               do { w2 \<leftarrow> KickPlayer s w1; delete_session s w2 }
             else
               do { (decrease_session, w2) \<leftarrow>
                      (case map_of (m_sessions w1) (accountId sess) of
                         Some old \<Rightarrow>
                           do { (found, w) \<leftarrow> RemoveQueuedSession old w1;
                                w' \<leftarrow> delete_session old w;
                                Some (\<not> found, w') }
                       | None \<Rightarrow> Some (True, w1));
                    sess \<leftarrow> heap w2 s;
                    let w3 = w2\<lparr>m_sessions := AList.update (accountId sess) s (m_sessions w2)\<rparr>;
                    let Sessions = GetActiveAndQueuedSessionCount w3;
                    let pLimit = GetPlayerAmountLimit w3;
                    let Sessions = (if decrease_session then Sessions - 1 else Sessions);
                    if pLimit > 0 \<and> Sessions \<ge> pLimit \<and> security sess = SEC_PLAYER then
                      do { w4 \<leftarrow> AddQueuedSession s w3;
                           Some (UpdateMaxSessionCounters w4) }
                    else
                      do { w4 \<leftarrow> SendPacket s (AuthOk s) w3;
                           let w5 = UpdateMaxSessionCounters w4;
                           Some (if pLimit > 0
                                 then emit (PopulationUpdate (GetActiveSessionCount w5) pLimit) w5
                                 else w5) } } })"

text \<open>
  \<open>World::UpdateSessions(uint32 diff)\<close>: the hand-over queue is drained through
  \<open>AddSession_\<close>, then the map is walked in key order and each session whose
  \<open>Update\<close> reports that it is no longer alive is taken off the queue machinery, erased
  and deleted. \<open>alive\<close> is what \<open>pSession->Update(diff, updater)\<close> returns.
\<close>

fun drain :: "ptr list \<Rightarrow> World \<Rightarrow> World option" where
  "drain [] w = Some w"
| "drain (s # ss) w = do { w' \<leftarrow> AddSession_impl s w; drain ss w' }"

fun sweep :: "(ptr \<Rightarrow> bool) \<Rightarrow> nat list \<Rightarrow> World \<Rightarrow> World option" where
  "sweep alive [] w = Some w"
| "sweep alive (k # ks) w =
     (case map_of (m_sessions w) k of
        None \<Rightarrow> sweep alive ks w
      | Some pSession \<Rightarrow>
          if heap w pSession = None then None
          else if \<not> alive pSession then
            do { (found, w1) \<leftarrow> RemoveQueuedSession pSession w;
                 let w2 = w1\<lparr>m_sessions := AList.delete k (m_sessions w1)\<rparr>;
                 w3 \<leftarrow> delete_session pSession w2;
                 sweep alive ks w3 }
          else sweep alive ks w)"

definition UpdateSessions :: "(ptr \<Rightarrow> bool) \<Rightarrow> World \<Rightarrow> World option" where
  "UpdateSessions alive w =
     do { w1 \<leftarrow> drain (addSessQueue w) (w\<lparr>addSessQueue := []\<rparr>);
          sweep alive (sort (map fst (m_sessions w1))) w1 }"

text \<open>\<open>World::SetPlayerLimit(int32 limit, bool needUpdate)\<close>, without the database write.\<close>

definition SetPlayerLimit :: "int32 \<Rightarrow> World \<Rightarrow> World" where
  "SetPlayerLimit limit w =
     w\<lparr>m_playerLimit :=
         (if limit <s - AccountTypes_value SEC_ADMINISTRATOR
          then - AccountTypes_value SEC_ADMINISTRATOR else limit)\<rparr>"

text \<open>
  The network layer allocates the session object of a newly authenticated connection and
  hands its address over with \<open>AddSession\<close>.
\<close>

definition connect :: "ptr \<Rightarrow> WorldSession \<Rightarrow> World \<Rightarrow> World" where
  "connect s sess w = AddSession s (w\<lparr>heap := (heap w)(s \<mapsto> sess)\<rparr>)"

section \<open>Notions used to state the properties\<close>

text \<open>The position messages the closing loop of \<open>RemoveQueuedSession\<close> sends.\<close>

fun pos_events :: "ptr list \<Rightarrow> uint32 \<Rightarrow> event list" where
  "pos_events [] position = []"
| "pos_events (x # xs) position = AuthWaitQue x position # pos_events xs (position + 1)"

text \<open>The store after \<open>SetInQueue(false)\<close> on a session.\<close>

definition clear_inQueue :: "ptr \<Rightarrow> (ptr \<Rightarrow> WorldSession option) \<Rightarrow> (ptr \<Rightarrow> WorldSession option)" where
  "clear_inQueue p h = (case h p of None \<Rightarrow> h | Some sess \<Rightarrow> h(p \<mapsto> sess\<lparr>inQueue := False\<rparr>))"

text \<open>
  The test \<open>RemoveQueuedSession\<close> makes before it promotes, as the code writes it on
  the raw \<open>m_playerLimit\<close>: the limit is 0, or the active count before the call, less
  one when the released session is not queued, is below the limit in a signed comparison.
\<close>

definition capacity_free :: "World \<Rightarrow> ptr \<Rightarrow> bool" where
  "capacity_free w sess =
     (let sessions = GetActiveSessionCount w;
          sessions = (if sess \<notin> set (m_QueuedSessions w) \<and> sessions \<noteq> 0 then sessions - 1 else sessions)
      in m_playerLimit w = 0 \<or> sessions <s m_playerLimit w)"

text \<open>
  Capacity left after a release, in the spec's words: the capacity is unlimited (the
  amount limit is 0), or the active sessions that remain when the released session is
  gone are fewer than the amount limit.
\<close>

definition capacity_left :: "World \<Rightarrow> ptr \<Rightarrow> bool" where
  "capacity_left w sess =
     (let limit = unat (GetPlayerAmountLimit w);
          active = length (filter (\<lambda>(k, p). p \<noteq> sess \<and> p \<notin> set (m_QueuedSessions w))
                             (m_sessions w))
      in limit = 0 \<or> active < limit)"

text \<open>
  \<open>AddSession_\<close> from the insertion into the map on, and its replacement of an old
  session, as functions of their own: \<open>AddSession_impl_unfold\<close> below shows that
  \<open>AddSession_impl\<close> is their composition.
\<close>

definition admit_or_queue :: "ptr \<Rightarrow> WorldSession \<Rightarrow> bool \<Rightarrow> World \<Rightarrow> World option" where
  "admit_or_queue s sess decrease_session w2 =
     (let w3 = w2\<lparr>m_sessions := AList.update (accountId sess) s (m_sessions w2)\<rparr>;
          Sessions = GetActiveAndQueuedSessionCount w3;
          pLimit = GetPlayerAmountLimit w3;
          Sessions = (if decrease_session then Sessions - 1 else Sessions)
      in if pLimit > 0 \<and> Sessions \<ge> pLimit \<and> security sess = SEC_PLAYER then
           do { w4 \<leftarrow> AddQueuedSession s w3;
                Some (UpdateMaxSessionCounters w4) }
         else
           do { w4 \<leftarrow> SendPacket s (AuthOk s) w3;
                let w5 = UpdateMaxSessionCounters w4;
                Some (if pLimit > 0
                      then emit (PopulationUpdate (GetActiveSessionCount w5) pLimit) w5
                      else w5) })"

definition replace_old :: "nat \<Rightarrow> World \<Rightarrow> (bool \<times> World) option" where
  "replace_old account w1 =
     (case map_of (m_sessions w1) account of
        Some old \<Rightarrow>
          do { (found, w) \<leftarrow> RemoveQueuedSession old w1;
               w' \<leftarrow> delete_session old w;
               Some (\<not> found, w') }
      | None \<Rightarrow> Some (True, w1))"

text \<open>The test of \<open>AddSession_\<close> that sends the session to the wait-queue.\<close>

definition queues :: "ptr \<Rightarrow> WorldSession \<Rightarrow> bool \<Rightarrow> World \<Rightarrow> bool" where
  "queues s sess decrease_session w2 =
     (let w3 = w2\<lparr>m_sessions := AList.update (accountId sess) s (m_sessions w2)\<rparr>;
          Sessions = GetActiveAndQueuedSessionCount w3;
          pLimit = GetPlayerAmountLimit w3;
          Sessions = (if decrease_session then Sessions - 1 else Sessions)
      in pLimit > 0 \<and> Sessions \<ge> pLimit \<and> security sess = SEC_PLAYER)"

text \<open>
  The session's account has a session in the map that is still loading, so that
  \<open>RemoveSession\<close> returns false.
\<close>

definition refused :: "ptr \<Rightarrow> World \<Rightarrow> bool" where
  "refused s w =
     (case heap w s of
        None \<Rightarrow> False
      | Some sess \<Rightarrow>
          (case map_of (m_sessions w) (accountId sess) of
             None \<Rightarrow> False
           | Some old \<Rightarrow>
               (case heap w old of None \<Rightarrow> False | Some osess \<Rightarrow> playerLoading osess)))"

text \<open>
  The flag \<open>decrease_session\<close> of \<open>AddSession_\<close>: false exactly when the account
  had a session and that session was queued.
\<close>

definition decrease_session_of :: "World \<Rightarrow> nat \<Rightarrow> bool" where
  "decrease_session_of w account =
     (case map_of (m_sessions w) account of
        None \<Rightarrow> True
      | Some old \<Rightarrow> old \<notin> set (m_QueuedSessions w))"

text \<open>What a call of \<open>AddSession_\<close> that is not refused leaves behind.\<close>

definition admitted_as :: "ptr \<Rightarrow> WorldSession \<Rightarrow> World \<Rightarrow> World \<Rightarrow> bool" where
  "admitted_as s sess w w' \<longleftrightarrow>
     (let acc = accountId sess; old = map_of (m_sessions w) acc;
          Q = queues s sess (decrease_session_of w acc) w
      in m_sessions w' = AList.update acc s (m_sessions w)
       \<and> (\<exists>q1 e1. distinct q1 \<and> s \<notin> set q1
             \<and> set q1 \<subseteq> set (m_QueuedSessions w) - {p. old = Some p}
             \<and> m_QueuedSessions w' = (if Q then q1 @ [s] else q1)
             \<and> events w' = events w
                 @ (case old of None \<Rightarrow> [] | Some p \<Rightarrow> Kicked p # e1 @ [Deleted p])
                 @ (if Q then [AuthWaitQueue s (of_nat (length q1) + 1)]
                    else AuthOk s #
                      (if GetPlayerAmountLimit w > 0
                       then [PopulationUpdate
                               (of_nat (length (AList.update acc s (m_sessions w)))
                                  - of_nat (length q1))
                               (GetPlayerAmountLimit w)]
                       else [])))
       \<and> heap w' s = Some (if Q then sess\<lparr>inQueue := True\<rparr> else sess)
       \<and> (\<forall>p. old = Some p \<longrightarrow> heap w' p = None))"

text \<open>
  The active-plus-queued count without the candidate, in the spec's words: the sessions
  of the directory that belong to other accounts (a session of the candidate's account
  is replaced, so it does not count beside the candidate).
\<close>

definition claimed_count :: "World \<Rightarrow> nat \<Rightarrow> nat" where
  "claimed_count w account = length (filter (\<lambda>(k, p). k \<noteq> account) (m_sessions w))"

text \<open>
  The count \<open>AddSession_\<close> compares with the limit: the size of the map once the
  candidate holds the entry of its account, less one for the candidate, except that the
  one is not taken off when the candidate replaces a queued session (then
  \<open>decrease_session\<close> is false and the candidate's own entry stays in the count).
\<close>

definition effective_count :: "World \<Rightarrow> nat \<Rightarrow> nat" where
  "effective_count w account =
     claimed_count w account
     + (case map_of (m_sessions w) account of
          None \<Rightarrow> 0
        | Some old \<Rightarrow> if old \<in> set (m_QueuedSessions w) then 1 else 0)"

text \<open>
  Well-formedness of the directory: the keys of the map are unique, every entry points to
  a live session of that account, the queue has no duplicates and holds only sessions of
  the map; the sessions handed over but not yet admitted are live, distinct and not yet
  in the map.
\<close>

definition account_of :: "World \<Rightarrow> ptr \<Rightarrow> nat option" where
  "account_of w p = map_option accountId (heap w p)"

definition dir_ok :: "World \<Rightarrow> bool" where
  "dir_ok w \<longleftrightarrow>
     distinct (map fst (m_sessions w))
   \<and> (\<forall>k p. map_of (m_sessions w) k = Some p \<longrightarrow> p \<noteq> NULL \<and> account_of w p = Some k)
   \<and> distinct (m_QueuedSessions w)
   \<and> set (m_QueuedSessions w) \<subseteq> ran (map_of (m_sessions w))"

definition pending_ok :: "ptr list \<Rightarrow> World \<Rightarrow> bool" where
  "pending_ok ps w \<longleftrightarrow>
     distinct ps
   \<and> (\<forall>p \<in> set ps. p \<noteq> NULL \<and> heap w p \<noteq> None \<and> p \<notin> ran (map_of (m_sessions w)))"

definition directory_inv :: "World \<Rightarrow> bool" where
  "directory_inv w \<longleftrightarrow> dir_ok w \<and> pending_ok (addSessQueue w) w"

text \<open>
  The states the world can reach: from the constructed world, a connection hands a newly
  allocated session over, the tick drains and sweeps (or admits the next pending
  session), a kick is requested, a session starts or ends loading, the limit is set, and
  the shutdown controller and the timer loop run.
\<close>

inductive reachable :: "World \<Rightarrow> bool" where
  init: "reachable (World_new thisTime timers)"
| connect: "reachable w \<Longrightarrow> s \<noteq> NULL \<Longrightarrow> heap w s = None \<Longrightarrow>
     reachable (connect s sess w)"
| admit: "reachable w \<Longrightarrow> addSessQueue w = s # ss \<Longrightarrow>
     AddSession_impl s (w\<lparr>addSessQueue := ss\<rparr>) = Some w' \<Longrightarrow> reachable w'"
| update: "reachable w \<Longrightarrow> UpdateSessions alive w = Some w' \<Longrightarrow> reachable w'"
| kick: "reachable w \<Longrightarrow> RemoveSession account w = Some (removed, w') \<Longrightarrow> reachable w'"
| loading: "reachable w \<Longrightarrow> heap w p = Some sess \<Longrightarrow>
     reachable (w\<lparr>heap := (heap w)(p \<mapsto> sess\<lparr>playerLoading := b\<rparr>)\<rparr>)"
| limit: "reachable w \<Longrightarrow> reachable (SetPlayerLimit l w)"
| shutdown: "reachable w \<Longrightarrow> reachable (shutdown_step x w)"
| timers: "reachable w \<Longrightarrow> reachable (Update_timers upd diff w)"

text \<open>The sessions of the directory, active or queued, and those of one account.\<close>

definition directory :: "World \<Rightarrow> ptr set" where
  "directory w = snd ` set (m_sessions w) \<union> set (m_QueuedSessions w)"

definition sessions_of :: "World \<Rightarrow> nat \<Rightarrow> ptr set" where
  "sessions_of w account = {p \<in> directory w. account_of w p = Some account}"

section \<open>Example states\<close>

text \<open>A small state for the examples: three sessions in the map, none queued.\<close>

definition three_sessions :: World where
  "three_sessions = (World_new 1000 [])\<lparr>m_sessions := [(1, 11), (2, 12), (3, 13)]\<rparr>"

text \<open>A countdown with 301 seconds left, last ticked at game time 1000.\<close>

definition counting_301 :: World where
  "counting_301 = three_sessions\<lparr>m_ShutdownTimer := 301\<rparr>"

text \<open>An idle-mode shutdown requested with delay 0 while three sessions are present.\<close>

definition idle_wait_pending :: World where
  "idle_wait_pending = ShutdownServ 0 SHUTDOWN_MASK_IDLE 0 three_sessions"

definition two_timers :: "IntervalTimer list" where
  "two_timers = [\<lparr>interval = 60000, current = - 5\<rparr>, \<lparr>interval = 1000, current = 40\<rparr>]"

text \<open>
  Sessions of plain players; a server with limit 2, accounts 1 and 2 active and account 3
  queued; the same with account 1 still loading and reconnecting; a server with three
  queued sessions and no limit; a server with two active sessions and a third pending.
\<close>

definition plain_player :: "nat \<Rightarrow> WorldSession" where
  "plain_player account =
     \<lparr>accountId = account, security = SEC_PLAYER, inQueue = False, playerLoading = False\<rparr>"

definition full_server :: World where
  "full_server = (World_new 0 [])
     \<lparr>heap := [11 \<mapsto> plain_player 1, 12 \<mapsto> plain_player 2, 13 \<mapsto> (plain_player 3)\<lparr>inQueue := True\<rparr>],
      m_sessions := [(1, 11), (2, 12), (3, 13)],
      m_QueuedSessions := [13],
      m_playerLimit := 2\<rparr>"

definition loading_server :: World where
  "loading_server = full_server
     \<lparr>heap := (heap full_server)(11 \<mapsto> (plain_player 1)\<lparr>playerLoading := True\<rparr>, 14 \<mapsto> plain_player 1)\<rparr>"

definition long_queue :: World where
  "long_queue = full_server\<lparr>m_QueuedSessions := [13, 12, 11], m_playerLimit := 0\<rparr>"

definition two_admitted :: World where
  "two_admitted = (World_new 0 [])
     \<lparr>heap := [11 \<mapsto> plain_player 1, 12 \<mapsto> plain_player 2, 13 \<mapsto> plain_player 3],
      m_sessions := [(1, 11), (2, 12)],
      m_playerLimit := 2\<rparr>"

text \<open>
  Scenario A of the spec: limit 2, three connections handed over in the order a, b, c,
  then one tick; and a reconnection of account 3 after it.
\<close>

definition scenario_A_begin :: World where
  "scenario_A_begin =
     connect 13 (plain_player 3) (connect 12 (plain_player 2) (connect 11 (plain_player 1)
       (SetPlayerLimit 2 (World_new 0 []))))"

definition scenario_A :: World where
  "scenario_A = the (UpdateSessions (\<lambda>_. True) scenario_A_begin)"

definition reconnect_c :: World where
  "reconnect_c = connect 14 (plain_player 3) scenario_A"

text \<open>
  The same after the limit has been raised to 3, with the reconnecting session taken
  from the hand-over queue and about to be admitted.
\<close>

definition raised_limit :: World where
  "raised_limit = (SetPlayerLimit 3 reconnect_c)\<lparr>addSessQueue := []\<rparr>"

text \<open>
  A server with limit 1 on which account 1 is active and account 2 queued after one
  tick, and whose limit is then set to \<open>-1\<close>, the encoding of a privilege tier.
\<close>

definition neg_limit_begin :: World where
  "neg_limit_begin =
     connect 12 (plain_player 2) (connect 11 (plain_player 1)
       (SetPlayerLimit 1 (World_new 0 [])))"

definition neg_limit :: World where
  "neg_limit = SetPlayerLimit (- 1) (the (UpdateSessions (\<lambda>_. True) neg_limit_begin))"

section \<open>Properties of the shutdown controller\<close>

lemma mod_coarse_gen:
  fixes t :: nat
  assumes "a dvd b" "t mod b = 0"
  shows "t mod a = 0"
  using assms by (meson dvd_trans mod_eq_0_iff_dvd)

lemma mod_coarse:
  fixes t :: nat
  shows "t mod 60 = 0 \<Longrightarrow> t mod 15 = 0"
    and "t mod 300 = 0 \<Longrightarrow> t mod 60 = 0"
    and "t mod 3600 = 0 \<Longrightarrow> t mod 300 = 0"
  by (erule mod_coarse_gen[rotated], simp)+

text \<open>The chain of overlapping tests in \<open>ShutdownMsg\<close> is the tiered table.\<close>

lemma milestone_nat:
  fixes t :: nat
  shows "((t < 300 \<and> t mod 15 = 0)
        \<or> (t < 900 \<and> t mod 60 = 0)
        \<or> (t < 1800 \<and> t mod 300 = 0)
        \<or> (t < 43200 \<and> t mod 3600 = 0)
        \<or> (t \<ge> 43200 \<and> t mod 43200 = 0)) = milestone t"
proof -
  have a: "t mod 60 = 0 \<Longrightarrow> t mod 15 = 0" by (rule mod_coarse)
  have b: "t mod 300 = 0 \<Longrightarrow> t mod 60 = 0" by (rule mod_coarse)
  have c: "t mod 3600 = 0 \<Longrightarrow> t mod 300 = 0" by (rule mod_coarse)
  consider "t < 300" | "300 \<le> t" "t < 900" | "900 \<le> t" "t < 1800"
    | "1800 \<le> t" "t < 43200" | "43200 \<le> t" by linarith
  then show ?thesis
  proof cases
    case 1 then show ?thesis using a b c by (auto simp: milestone_def)
  next
    case 2 then show ?thesis using b c by (auto simp: milestone_def)
  next
    case 3 then show ?thesis using c by (auto simp: milestone_def)
  next
    case 4 then show ?thesis by (auto simp: milestone_def)
  next
    case 5 then show ?thesis by (auto simp: milestone_def)
  qed
qed

lemma milestone_code:
  fixes T :: uint32
  shows "((T < 5 * MINUTE \<and> T mod 15 = 0)
        \<or> (T < 15 * MINUTE \<and> T mod MINUTE = 0)
        \<or> (T < 30 * MINUTE \<and> T mod (5 * MINUTE) = 0)
        \<or> (T < 12 * HOUR \<and> T mod HOUR = 0)
        \<or> (T \<ge> 12 * HOUR \<and> T mod (12 * HOUR) = 0)) = milestone (unat T)"
  unfolding milestone_nat[symmetric]
  by (simp add: MINUTE_def HOUR_def word_less_nat_alt word_le_nat_alt unat_mod_distrib
      unat_eq_0[symmetric] del: unat_eq_0)

lemma ShutdownMsg_events:
  "events (ShutdownMsg show player w) =
     events w @
     (if m_ShutdownMask w AND SHUTDOWN_MASK_IDLE = 0 \<and> (show \<or> milestone (unat (m_ShutdownTimer w)))
      then [ServerMessage
              (if m_ShutdownMask w AND SHUTDOWN_MASK_RESTART \<noteq> 0
               then SERVER_MSG_RESTART_TIME else SERVER_MSG_SHUTDOWN_TIME)
              (Some (m_ShutdownTimer w)) player]
      else [])"
  unfolding ShutdownMsg_def milestone_code
  by (simp add: SendServerMessage_def emit_def)

lemma ShutdownMsg_fields [simp]:
  "m_ShutdownTimer (ShutdownMsg show player w) = m_ShutdownTimer w"
  "m_ShutdownMask (ShutdownMsg show player w) = m_ShutdownMask w"
  "m_stopEvent (ShutdownMsg show player w) = m_stopEvent w"
  "m_ExitCode (ShutdownMsg show player w) = m_ExitCode w"
  "m_sessions (ShutdownMsg show player w) = m_sessions w"
  by (simp_all add: ShutdownMsg_def SendServerMessage_def emit_def)

text \<open>
  C5. A shutdown request with delay 0, made while the stop event is not yet set: when the
  mask has no idle-wait flag or no session is active or queued, the controller goes to
  Firing with the given exit code; otherwise it goes to Counting with the timer at 1,
  the mask and exit code stored and nothing broadcast. A tick on which the running
  countdown is used up (timer at most the elapsed seconds) makes the same test: it fires,
  keeping the stored exit code, or sets the timer back to 1.
\<close>

theorem ShutdownServ_zero_delay:
  assumes "\<not> m_stopEvent w"
  shows "(let w' = ShutdownServ 0 options exitcode w in
            if options AND SHUTDOWN_MASK_IDLE = 0 \<or> GetActiveAndQueuedSessionCount w = 0
            then shutdown_state w' = Firing \<and> m_ExitCode w' = exitcode
            else shutdown_state w' = Counting \<and> m_ShutdownTimer w' = 1
               \<and> m_ShutdownMask w' = options \<and> m_ExitCode w' = exitcode
               \<and> events w' = events w)
       \<and> (0 < m_ShutdownTimer w
            \<and> m_ShutdownTimer w \<le> word_of_int (thisTime - m_gameTime w) \<longrightarrow>
          (let w' = UpdateGameTime thisTime w in
            if m_ShutdownMask w AND SHUTDOWN_MASK_IDLE = 0 \<or> GetActiveAndQueuedSessionCount w = 0
            then shutdown_state w' = Firing \<and> m_ExitCode w' = m_ExitCode w
            else shutdown_state w' = Counting \<and> m_ShutdownTimer w' = 1
               \<and> m_ExitCode w' = m_ExitCode w \<and> events w' = events w))"
proof -
  have req: "let w' = ShutdownServ 0 options exitcode w in
            if options AND SHUTDOWN_MASK_IDLE = 0 \<or> GetActiveAndQueuedSessionCount w = 0
            then shutdown_state w' = Firing \<and> m_ExitCode w' = exitcode
            else shutdown_state w' = Counting \<and> m_ShutdownTimer w' = 1
               \<and> m_ShutdownMask w' = options \<and> m_ExitCode w' = exitcode
               \<and> events w' = events w"
    using assms
    by (simp add: ShutdownServ_def shutdown_state_def GetActiveAndQueuedSessionCount_def Let_def)
  have tick: "let w' = UpdateGameTime thisTime w in
            if m_ShutdownMask w AND SHUTDOWN_MASK_IDLE = 0 \<or> GetActiveAndQueuedSessionCount w = 0
            then shutdown_state w' = Firing \<and> m_ExitCode w' = m_ExitCode w
            else shutdown_state w' = Counting \<and> m_ShutdownTimer w' = 1
               \<and> m_ExitCode w' = m_ExitCode w \<and> events w' = events w"
    if t: "0 < m_ShutdownTimer w" "m_ShutdownTimer w \<le> word_of_int (thisTime - m_gameTime w)"
  proof -
    from t have "0 < (word_of_int (thisTime - m_gameTime w) :: uint32)"
      by (metis not_less word_le_0_iff word_gt_0 order_trans)
    with t assms show ?thesis
      by (simp add: UpdateGameTime_def shutdown_state_def GetActiveAndQueuedSessionCount_def
          Let_def)
  qed
  from req tick show ?thesis by blast
qed

theorem ShutdownServ_zero_delay_witness:
  "\<not> m_stopEvent three_sessions
   \<and> shutdown_state (ShutdownServ 0 SHUTDOWN_MASK_IDLE 0 three_sessions) = Counting
   \<and> m_ShutdownTimer (ShutdownServ 0 SHUTDOWN_MASK_IDLE 0 three_sessions) = 1
   \<and> shutdown_state (UpdateGameTime 1001 (three_sessions\<lparr>m_ShutdownTimer := 1\<rparr>)) = Firing"
  using ShutdownServ_zero_delay [of three_sessions SHUTDOWN_MASK_IDLE 0 1001]
    ShutdownServ_zero_delay [of "three_sessions\<lparr>m_ShutdownTimer := 1\<rparr>" 0 0 1001]
  by (simp add: three_sessions_def World_new_def SHUTDOWN_MASK_IDLE_def
      GetActiveAndQueuedSessionCount_def Let_def)

text \<open>
  C6. Once the stop event is set, a shutdown request and a cancellation return the state
  as it is, a tick only stores the new game time, and so after any run of requests,
  cancellations and ticks the stop event is still set, the exit code, mask and timer are
  the ones held on entering Firing, and nothing has been broadcast.
\<close>

theorem firing_is_final:
  assumes "m_stopEvent w"
  shows "ShutdownServ time options exitcode w = w
       \<and> ShutdownCancel w = w
       \<and> UpdateGameTime thisTime w = w\<lparr>m_gameTime := thisTime\<rparr>
       \<and> (let w' = shutdown_run ops w in
            m_stopEvent w' \<and> m_ExitCode w' = m_ExitCode w
          \<and> m_ShutdownMask w' = m_ShutdownMask w \<and> m_ShutdownTimer w' = m_ShutdownTimer w
          \<and> events w' = events w)"
proof -
  have step: "shutdown_step x v = (case x of Tick t \<Rightarrow> v\<lparr>m_gameTime := t\<rparr> | _ \<Rightarrow> v)"
    if "m_stopEvent v" for x v
    using that
    by (cases x) (simp_all add: ShutdownServ_def ShutdownCancel_def UpdateGameTime_def Let_def)
  have run: "m_stopEvent v \<Longrightarrow>
      m_stopEvent (shutdown_run ops v) \<and> m_ExitCode (shutdown_run ops v) = m_ExitCode v
    \<and> m_ShutdownMask (shutdown_run ops v) = m_ShutdownMask v
    \<and> m_ShutdownTimer (shutdown_run ops v) = m_ShutdownTimer v
    \<and> events (shutdown_run ops v) = events v" for v
  proof (induction ops arbitrary: v)
    case Nil
    then show ?case by simp
  next
    case (Cons x xs)
    have s: "shutdown_step x v = (case x of Tick t \<Rightarrow> v\<lparr>m_gameTime := t\<rparr> | _ \<Rightarrow> v)"
      by (rule step) (rule Cons.prems)
    have "m_stopEvent (shutdown_step x v)"
      using Cons.prems by (simp add: s split: shutdown_op.split)
    from Cons.IH [OF this] show ?case
      by (simp add: s split: shutdown_op.split)
  qed
  show ?thesis
    using assms run [OF assms]
    by (simp add: ShutdownServ_def ShutdownCancel_def UpdateGameTime_def Let_def)
qed

theorem firing_is_final_witness:
  "m_stopEvent (ShutdownServ 0 0 7 three_sessions)
   \<and> m_ExitCode (shutdown_run [Request 0 0 2, Cancel, Tick 1005, Request 30 1 3]
        (ShutdownServ 0 0 7 three_sessions)) = 7
   \<and> m_stopEvent (shutdown_run [Request 0 0 2, Cancel, Tick 1005, Request 30 1 3]
        (ShutdownServ 0 0 7 three_sessions))"
proof -
  have f: "m_stopEvent (ShutdownServ 0 0 7 three_sessions)"
    by (simp add: ShutdownServ_def three_sessions_def World_new_def Let_def)
  have e: "m_ExitCode (ShutdownServ 0 0 7 three_sessions) = 7"
    by (simp add: ShutdownServ_def three_sessions_def World_new_def Let_def)
  show ?thesis
    using f e firing_is_final [OF f, of 0 0 0 0 "[Request 0 0 2, Cancel, Tick 1005, Request 30 1 3]"]
    by (simp add: Let_def)
qed

text \<open>
  C7. A tick while the countdown runs with time remaining (stop event not set, no
  idle-wait flag, elapsed seconds positive and below the timer) takes the elapsed
  seconds off the timer and broadcasts exactly when the new remaining time is on the
  milestone table: a multiple of 15 s under 5 minutes, of 1 minute under 15 minutes, of
  5 minutes under 30 minutes, of 1 hour under 12 hours, of 12 hours otherwise. From 301
  seconds a tick of 2 seconds (to 299) broadcasts nothing, a tick to 300 broadcasts.
\<close>

theorem countdown_broadcast_schedule:
  assumes "\<not> m_stopEvent w"
    and "m_ShutdownMask w AND SHUTDOWN_MASK_IDLE = 0"
    and "0 < (word_of_int (thisTime - m_gameTime w) :: uint32)"
    and "(word_of_int (thisTime - m_gameTime w) :: uint32) < m_ShutdownTimer w"
  shows "(let elapsed = (word_of_int (thisTime - m_gameTime w) :: uint32);
              remaining = m_ShutdownTimer w - elapsed;
              w' = UpdateGameTime thisTime w
          in m_ShutdownTimer w' = remaining
           \<and> unat remaining = unat (m_ShutdownTimer w) - unat elapsed
           \<and> events w' = events w @
               (if milestone (unat remaining)
                then [ServerMessage
                        (if m_ShutdownMask w AND SHUTDOWN_MASK_RESTART \<noteq> 0
                         then SERVER_MSG_RESTART_TIME else SERVER_MSG_SHUTDOWN_TIME)
                        (Some remaining) NULL]
                else []))"
proof -
  let ?e = "word_of_int (thisTime - m_gameTime w) :: uint32"
  have pos: "0 < m_ShutdownTimer w"
    using assms(3,4) by (simp add: word_less_nat_alt)
  have nle: "\<not> m_ShutdownTimer w \<le> ?e"
    using assms(4) by simp
  have u: "UpdateGameTime thisTime w =
      ShutdownMsg False NULL (w\<lparr>m_gameTime := thisTime, m_ShutdownTimer := m_ShutdownTimer w - ?e\<rparr>)"
    using assms(1,3) pos nle by (simp add: UpdateGameTime_def Let_def)
  have s: "unat (m_ShutdownTimer w - ?e) = unat (m_ShutdownTimer w) - unat ?e"
    using assms(4) by (simp add: unat_sub word_le_nat_alt word_less_nat_alt)
  show ?thesis
    unfolding Let_def u ShutdownMsg_events
    using assms(2) s by simp
qed

theorem countdown_broadcast_schedule_witness:
  "events (UpdateGameTime 1002 counting_301) = []
   \<and> m_ShutdownTimer (UpdateGameTime 1002 counting_301) = 299
   \<and> events (UpdateGameTime 1001 counting_301)
       = [ServerMessage SERVER_MSG_SHUTDOWN_TIME (Some 300) NULL]"
proof -
  have m: "\<not> milestone 299" "milestone 300"
    by (simp_all add: milestone_def)
  show ?thesis
    using countdown_broadcast_schedule [of counting_301 1002]
      countdown_broadcast_schedule [of counting_301 1001] m
    by (simp add: counting_301_def three_sessions_def World_new_def Let_def)
qed

text \<open>
  C8. Cancelling a pending idle-mode shutdown: the request itself was silent, the
  controller is Counting with the idle-wait flag in its mask, and \<open>ShutdownCancel\<close>
  broadcasts the cancellation notice all the same, since it does not test the flag.
\<close>

theorem ShutdownCancel_idle_mode_notice:
  "shutdown_state idle_wait_pending = Counting
   \<and> m_ShutdownMask idle_wait_pending AND SHUTDOWN_MASK_IDLE \<noteq> 0
   \<and> events idle_wait_pending = []
   \<and> events (ShutdownCancel idle_wait_pending)
       = [ServerMessage SERVER_MSG_SHUTDOWN_CANCELLED None NULL]"
  by (simp add: idle_wait_pending_def ShutdownServ_def ShutdownCancel_def three_sessions_def
      World_new_def shutdown_state_def GetActiveAndQueuedSessionCount_def Let_def
      SHUTDOWN_MASK_IDLE_def SHUTDOWN_MASK_RESTART_def SendServerMessage_def emit_def)

text \<open>
  The rest of what the spec says of idle mode and of cancellation: with the idle-wait
  flag set neither a tick nor a request broadcasts; a cancellation while Counting puts
  mask, timer and exit code back to their defaults, and any other cancellation returns
  the state as it is.
\<close>

lemma idle_mode_countdown_silent:
  assumes "m_ShutdownMask w AND SHUTDOWN_MASK_IDLE \<noteq> 0"
  shows "events (UpdateGameTime thisTime w) = events w"
  using assms by (simp add: UpdateGameTime_def Let_def ShutdownMsg_def)

lemma idle_mode_request_silent:
  assumes "options AND SHUTDOWN_MASK_IDLE \<noteq> 0"
  shows "events (ShutdownServ time options exitcode w) = events w"
  using assms by (simp add: ShutdownServ_def Let_def ShutdownMsg_def)

lemma ShutdownCancel_Counting:
  assumes "shutdown_state w = Counting"
  shows "m_ShutdownMask (ShutdownCancel w) = 0 \<and> m_ShutdownTimer (ShutdownCancel w) = 0
       \<and> m_ExitCode (ShutdownCancel w) = SHUTDOWN_EXIT_CODE
       \<and> shutdown_state (ShutdownCancel w) = Idle"
  using assms
  by (simp add: ShutdownCancel_def shutdown_state_def SendServerMessage_def emit_def Let_def
      split: if_splits)

lemma ShutdownCancel_not_Counting:
  assumes "shutdown_state w \<noteq> Counting"
  shows "ShutdownCancel w = w"
  using assms by (simp add: ShutdownCancel_def shutdown_state_def split: if_splits)

section \<open>Properties of the timer loop\<close>

text \<open>
  C9. The timer loop of a tick keeps the number of timers; a timer whose counter is not
  negative is advanced by \<open>Update(diff)\<close>, and a timer whose counter is negative gets
  the counter 0 (its period kept), so a counter that is negative before a tick is not
  negative after it. When \<open>Update\<close> does not take a counter from non-negative to
  negative, every counter is non-negative after the tick.
\<close>

theorem Update_timers_clamp:
  "length (m_timers (Update_timers upd diff w)) = length (m_timers w)
   \<and> (\<forall>i < length (m_timers w).
        let t = m_timers w ! i; t' = m_timers (Update_timers upd diff w) ! i
        in (0 \<le> current t \<longrightarrow> t' = upd t diff)
         \<and> (current t < 0 \<longrightarrow> current t' = 0 \<and> interval t' = interval t))
   \<and> ((\<forall>t. 0 \<le> current t \<longrightarrow> 0 \<le> current (upd t diff)) \<longrightarrow>
        (\<forall>t \<in> set (m_timers (Update_timers upd diff w)). 0 \<le> current t))"
  by (auto simp: Update_timers_def Update_timer_def Let_def)

theorem Update_timers_clamp_witness:
  "map current (m_timers (Update_timers IntervalTimer_Update 10 (World_new 0 two_timers)))
     = [0, 50]
   \<and> list_all (\<lambda>t. 0 \<le> current t)
        (m_timers (Update_timers IntervalTimer_Update 10 (World_new 0 two_timers)))"
proof -
  have h: "\<forall>t. 0 \<le> current t \<longrightarrow> 0 \<le> current (IntervalTimer_Update t 10)"
    by (simp add: IntervalTimer_Update_def)
  have v: "map current (m_timers (Update_timers IntervalTimer_Update 10 (World_new 0 two_timers)))
     = [0, 50]"
    by (simp add: Update_timers_def Update_timer_def World_new_def two_timers_def
        IntervalTimer_Update_def)
  from Update_timers_clamp [of IntervalTimer_Update 10 "World_new 0 two_timers"] h v
  show ?thesis by (simp add: list_all_iff)
qed

section \<open>The wait-queue\<close>

lemma queue_pos_notin: "sess \<notin> set q \<Longrightarrow> queue_pos q position sess = 0"
  by (induction q arbitrary: position) auto

lemma queue_pos_in:
  "sess \<in> set q \<Longrightarrow>
   queue_pos q position sess = position + of_nat (length (takeWhile (\<lambda>x. x \<noteq> sess) q))"
  by (induction q arbitrary: position) auto

lemma search_queue_eq:
  "search_queue q sess position =
     (sess \<in> set q, takeWhile (\<lambda>x. x \<noteq> sess) q, tl (dropWhile (\<lambda>x. x \<noteq> sess) q),
      position + of_nat (length (takeWhile (\<lambda>x. x \<noteq> sess) q)))"
  by (induction q arbitrary: position) auto

lemma remove1_split:
  "takeWhile (\<lambda>x. x \<noteq> sess) q @ tl (dropWhile (\<lambda>x. x \<noteq> sess) q) = remove1 sess q"
  by (induction q) auto

lemma dropWhile_tl_drop:
  "tl (dropWhile (\<lambda>x. x \<noteq> sess) q) = drop (length (takeWhile (\<lambda>x. x \<noteq> sess) q)) (remove1 sess q)"
  by (induction q) auto

lemma send_positions_Some:
  "\<forall>p \<in> set xs. heap w p \<noteq> None \<Longrightarrow>
   send_positions xs position w = Some (w\<lparr>events := events w @ pos_events xs position\<rparr>)"
proof (induction xs arbitrary: position w)
  case Nil
  then show ?case by simp
next
  case (Cons x xs)
  have "\<forall>p \<in> set xs. heap (emit (AuthWaitQue x position) w) p \<noteq> None"
    using Cons.prems by (simp add: emit_def)
  from Cons.IH [OF this] Cons.prems show ?case
    by (simp add: SendAuthWaitQue_def SendPacket_def emit_def)
qed

lemma SetInQueue_False:
  "heap w p \<noteq> None \<Longrightarrow> SetInQueue p False w = Some (w\<lparr>heap := clear_inQueue p (heap w)\<rparr>)"
  by (auto simp: SetInQueue_def clear_inQueue_def)

lemma clear_inQueue_None [simp]: "clear_inQueue p h x = None \<longleftrightarrow> h x = None"
  by (auto simp: clear_inQueue_def split: option.splits)

lemma clear_inQueue_apply:
  "clear_inQueue x h p =
     (if p = x then map_option (\<lambda>sess. sess\<lparr>inQueue := False\<rparr>) (h p) else h p)"
  by (auto simp: clear_inQueue_def split: option.splits)

text \<open>
  \<open>RemoveQueuedSession\<close> in closed form, for a queue whose sessions are all live.
\<close>

lemma RemoveQueuedSession_eq:
  assumes valid: "\<forall>p \<in> set (m_QueuedSessions w). heap w p \<noteq> None"
  shows "RemoveQueuedSession sess w =
     (let q = m_QueuedSessions w; q1 = remove1 sess q;
          h1 = (if sess \<in> set q then clear_inQueue sess (heap w) else heap w)
      in if capacity_free w sess \<and> q1 \<noteq> []
         then Some (sess \<in> set q,
                w\<lparr>heap := clear_inQueue (hd q1) h1, m_QueuedSessions := tl q1,
                  events := events w @ AuthWaitQue (hd q1) 0 # pos_events (tl q1) 1\<rparr>)
         else Some (sess \<in> set q,
                w\<lparr>heap := h1, m_QueuedSessions := q1,
                  events := events w @
                    pos_events (drop (length (takeWhile (\<lambda>x. x \<noteq> sess) q)) q1)
                      (1 + of_nat (length (takeWhile (\<lambda>x. x \<noteq> sess) q)))\<rparr>))"
proof -
  let ?q = "m_QueuedSessions w"
  let ?q1 = "remove1 sess ?q"
  have v1: "\<forall>p \<in> set ?q1. heap w p \<noteq> None"
    using valid by (meson notin_set_remove1)
  show ?thesis
  proof (cases "sess \<in> set ?q")
    case True
    then have hs: "heap w sess \<noteq> None" using valid by blast
    show ?thesis
    proof (cases "capacity_free w sess \<and> ?q1 \<noteq> []")
      case c: True
      then have hd1: "heap w (hd ?q1) \<noteq> None" using v1 by (meson hd_in_set)
      have v2: "\<forall>p \<in> set (tl ?q1). heap w p \<noteq> None"
        using v1 by (meson list.set_sel(2) c)
      show ?thesis
        using True c hs hd1 v2
        unfolding RemoveQueuedSession_def search_queue_eq Let_def prod.case remove1_split
        by (simp add: Let_def remove1_split SetInQueue_False capacity_free_def
            SendAuthWaitQue_def SendPacket_def emit_def send_positions_Some)
    next
      case c: False
      have v3: "\<forall>p \<in> set (drop (length (takeWhile (\<lambda>x. x \<noteq> sess) ?q)) ?q1). heap w p \<noteq> None"
        using v1 by (meson in_set_dropD)
      from c consider "\<not> capacity_free w sess" | "?q1 = []" by blast
      then show ?thesis
      proof cases
        case 1
        then show ?thesis
          using True hs v3
          unfolding RemoveQueuedSession_def search_queue_eq Let_def prod.case remove1_split
          by (auto simp: SetInQueue_False capacity_free_def send_positions_Some dropWhile_tl_drop Let_def)
      next
        case 2
        then show ?thesis
          using True hs v3
          unfolding RemoveQueuedSession_def search_queue_eq Let_def prod.case remove1_split
          by (auto simp: SetInQueue_False capacity_free_def send_positions_Some dropWhile_tl_drop Let_def)
      qed
    qed
  next
    case False
    then have r: "?q1 = ?q" by (simp add: remove1_idem)
    have tw: "takeWhile (\<lambda>x. x \<noteq> sess) ?q = ?q" using False by (auto simp: takeWhile_eq_all_conv)
    have dw: "dropWhile (\<lambda>x. x \<noteq> sess) ?q = []" using False by auto
    show ?thesis
    proof (cases "capacity_free w sess \<and> ?q \<noteq> []")
      case c: True
      then have hd1: "heap w (hd ?q) \<noteq> None" using valid by (meson hd_in_set)
      have v2: "\<forall>p \<in> set (tl ?q). heap w p \<noteq> None"
        using valid by (meson list.set_sel(2) c)
      show ?thesis
        using False c hd1 v2
        unfolding RemoveQueuedSession_def search_queue_eq Let_def prod.case remove1_split
        by (simp add: Let_def r tw dw SetInQueue_False capacity_free_def
            SendAuthWaitQue_def SendPacket_def emit_def send_positions_Some)
    next
      case c: False
      from c consider "\<not> capacity_free w sess" | "?q = []" by blast
      then show ?thesis
      proof cases
        case 1
        then show ?thesis
          using False
          unfolding RemoveQueuedSession_def search_queue_eq Let_def prod.case remove1_split
          by (auto simp: r tw dw capacity_free_def Let_def split: if_splits)
      next
        case 2
        then show ?thesis
          using False
          unfolding RemoveQueuedSession_def search_queue_eq Let_def prod.case remove1_split
          by (simp add: r tw dw capacity_free_def)
      qed
    qed
  qed
qed

lemma pos_events_map:
  "pos_events xs position =
     map (\<lambda>i. AuthWaitQue (xs ! i) (position + of_nat i)) [0..<length xs]"
proof (induction xs arbitrary: position)
  case Nil
  then show ?case by simp
next
  case (Cons x xs)
  have "map (\<lambda>i. AuthWaitQue ((x # xs) ! i) (position + of_nat i)) [0..<length (x # xs)]
      = AuthWaitQue x position #
        map (\<lambda>i. AuthWaitQue ((x # xs) ! Suc i) (position + of_nat (Suc i))) [0..<length xs]"
    by (simp add: upt_conv_Cons map_Suc_upt [symmetric] del: upt_Suc)
  also have "\<dots> = AuthWaitQue x position # pos_events xs (position + 1)"
    by (simp add: Cons.IH add.assoc add.commute)
  finally show ?case by simp
qed

lemma pos_events_drop:
  "pos_events (drop k xs) (1 + of_nat k) =
     map (\<lambda>i. AuthWaitQue (xs ! i) (of_nat i + 1)) [k..<length xs]"
proof -
  have "[k..<length xs] = map (\<lambda>i. i + k) [0..<length xs - k]"
    by (cases "k \<le> length xs") (simp_all add: map_add_upt)
  then show ?thesis
    by (simp add: pos_events_map o_def add.commute add.left_commute)
qed

lemma takeWhile_index:
  assumes "distinct q" "i < length q"
  shows "length (takeWhile (\<lambda>x. x \<noteq> q ! i) q) = i"
proof -
  let ?n = "length (takeWhile (\<lambda>x. x \<noteq> q ! i) q)"
  have "q ! i \<in> set q" using assms(2) by simp
  then have lt: "?n < length q"
    by (metis (mono_tags, lifting) length_takeWhile_le le_neq_implies_less
        takeWhile_eq_all_conv length_takeWhile_le takeWhile_eq_take take_all_iff)
  from nth_length_takeWhile [OF lt] have "q ! ?n = q ! i" by simp
  with assms lt show ?thesis by (simp add: nth_eq_iff_index_eq)
qed

lemma queue_pos_nth:
  assumes "distinct q" "i < length q"
  shows "queue_pos q 1 (q ! i) = of_nat i + 1"
  using assms by (simp add: queue_pos_in takeWhile_index)

lemma takeWhile_last: "s \<notin> set q \<Longrightarrow> takeWhile (\<lambda>x. x \<noteq> s) (q @ [s]) = q"
  by (induction q) auto

lemma queue_pos_last:
  "s \<notin> set q \<Longrightarrow> queue_pos (q @ [s]) 1 s = of_nat (length q) + 1"
  by (simp add: queue_pos_in takeWhile_last)

text \<open>
  What a call of \<open>RemoveQueuedSession\<close> on a queue of live sessions does: it returns
  whether the session was queued, and the session is taken off the queue and marked not
  queued. When the test \<open>capacity_free\<close> of the code succeeds and the queue is then not
  empty, its head, and no other session, is taken off as well, marked not queued and
  sent position 0. Every session that stays queued from the affected point on (from the
  head after a promotion, from the place of the removed session otherwise) is sent its
  1-based index in the new queue, which is what \<open>GetQueuedSessionPos\<close> returns for it
  afterwards.
\<close>

theorem RemoveQueuedSession_release:
  assumes valid: "\<forall>p \<in> set (m_QueuedSessions w). heap w p \<noteq> None"
  shows "\<exists>w'. RemoveQueuedSession sess w = Some (sess \<in> set (m_QueuedSessions w), w')
     \<and> (let q = m_QueuedSessions w; q1 = remove1 sess q; q' = m_QueuedSessions w';
             promote = (capacity_free w sess \<and> q1 \<noteq> []);
             k = (if promote then 0 else length (takeWhile (\<lambda>x. x \<noteq> sess) q))
         in q' = (if promote then tl q1 else q1)
          \<and> m_sessions w' = m_sessions w
          \<and> (sess \<in> set q \<longrightarrow> map_option inQueue (heap w' sess) = Some False)
          \<and> (promote \<longrightarrow> map_option inQueue (heap w' (hd q1)) = Some False)
          \<and> events w' = events w
               @ (if promote then [AuthWaitQue (hd q1) 0] else [])
               @ map (\<lambda>i. AuthWaitQue (q' ! i) (of_nat i + 1)) [k..<length q']
          \<and> (distinct q \<longrightarrow> sess \<notin> set q'
               \<and> (\<forall>i < length q'. GetQueuedSessionPos w' (q' ! i) = of_nat i + 1)))"
proof -
  let ?q = "m_QueuedSessions w"
  let ?q1 = "remove1 sess ?q"
  let ?k = "length (takeWhile (\<lambda>x. x \<noteq> sess) ?q)"
  let ?h1 = "if sess \<in> set ?q then clear_inQueue sess (heap w) else heap w"
  have v1: "\<forall>p \<in> set ?q1. heap w p \<noteq> None"
    using valid by (meson notin_set_remove1)
  have hs: "sess \<in> set ?q \<Longrightarrow> \<exists>y. heap w sess = Some y"
    using valid by auto
  have d1: "distinct ?q \<Longrightarrow> distinct ?q1 \<and> distinct (tl ?q1) \<and> sess \<notin> set ?q1
      \<and> sess \<notin> set (tl ?q1)"
  proof -
    assume d: "distinct ?q"
    have a: "sess \<notin> set ?q1" using d by simp
    have "set (tl ?q1) \<subseteq> set ?q1" by (cases ?q1) auto
    with a have "sess \<notin> set (tl ?q1)" by blast
    with a d show ?thesis by (simp add: distinct_tl)
  qed
  have cleared: "map_option inQueue (clear_inQueue x h x) = Some False" if "h x \<noteq> None" for x h
    using that by (auto simp: clear_inQueue_apply)
  have cleared2: "map_option inQueue (clear_inQueue y (clear_inQueue x h) x) = Some False"
    if "h x \<noteq> None" for x y h
    using that by (auto simp: clear_inQueue_apply)
  show ?thesis
  proof (cases "capacity_free w sess \<and> ?q1 \<noteq> []")
    case True
    let ?w' = "w\<lparr>heap := clear_inQueue (hd ?q1) ?h1, m_QueuedSessions := tl ?q1,
                  events := events w @ AuthWaitQue (hd ?q1) 0 # pos_events (tl ?q1) 1\<rparr>"
    have r: "RemoveQueuedSession sess w = Some (sess \<in> set ?q, ?w')"
      unfolding RemoveQueuedSession_eq [OF valid] Let_def using True by simp
    have hh: "heap w (hd ?q1) \<noteq> None" using v1 True by (metis hd_in_set)
    have c1: "m_QueuedSessions ?w' = tl ?q1" by simp
    have c2: "m_sessions ?w' = m_sessions w" by simp
    have c3: "sess \<in> set ?q \<longrightarrow> map_option inQueue (heap ?w' sess) = Some False"
      using hs cleared2 [of "heap w" sess "hd ?q1"] by auto
    have c4: "map_option inQueue (heap ?w' (hd ?q1)) = Some False"
      using hh cleared [of ?h1 "hd ?q1"] by (auto simp: clear_inQueue_apply)
    have c5: "events ?w' = events w @ [AuthWaitQue (hd ?q1) 0]
        @ map (\<lambda>i. AuthWaitQue (tl ?q1 ! i) (of_nat i + 1)) [0..<length (tl ?q1)]"
      by (simp add: pos_events_map add.commute)
    have c6: "distinct ?q \<longrightarrow> sess \<notin> set (tl ?q1)
        \<and> (\<forall>i < length (tl ?q1). GetQueuedSessionPos ?w' (tl ?q1 ! i) = of_nat i + 1)"
      using d1 by (simp add: GetQueuedSessionPos_def queue_pos_nth)
    have yp: "(capacity_free w sess \<and> ?q1 \<noteq> []) \<longleftrightarrow> True" using True by simp
    show ?thesis
      apply (rule exI [of _ ?w'])
      unfolding Let_def c1 yp
      using r c2 c3 c4 c5 c6 by simp
  next
    case False
    let ?w' = "w\<lparr>heap := ?h1, m_QueuedSessions := ?q1,
                  events := events w @ pos_events (drop ?k ?q1) (1 + of_nat ?k)\<rparr>"
    have r: "RemoveQueuedSession sess w = Some (sess \<in> set ?q, ?w')"
      unfolding RemoveQueuedSession_eq [OF valid] Let_def using False by auto
    have c1: "m_QueuedSessions ?w' = ?q1" by simp
    have c2: "m_sessions ?w' = m_sessions w" by simp
    have c3: "sess \<in> set ?q \<longrightarrow> map_option inQueue (heap ?w' sess) = Some False"
      using hs cleared [of "heap w" sess] by auto
    have c5: "events ?w' = events w
        @ map (\<lambda>i. AuthWaitQue (?q1 ! i) (of_nat i + 1)) [?k..<length ?q1]"
      by (simp add: pos_events_drop)
    have c6: "distinct ?q \<longrightarrow> sess \<notin> set ?q1
        \<and> (\<forall>i < length ?q1. GetQueuedSessionPos ?w' (?q1 ! i) = of_nat i + 1)"
      using d1 by (simp add: GetQueuedSessionPos_def queue_pos_nth)
    have np: "(capacity_free w sess \<and> ?q1 \<noteq> []) \<longleftrightarrow> False" using False by simp
    show ?thesis
      apply (rule exI [of _ ?w'])
      unfolding Let_def c1 np
      using r c2 c3 c5 c6 by simp
  qed
qed

theorem RemoveQueuedSession_release_witness:
  "\<exists>w'. RemoveQueuedSession 11 full_server = Some (False, w')
     \<and> m_QueuedSessions w' = []
     \<and> events w' = [AuthWaitQue 13 0]
     \<and> map_option inQueue (heap w' 13) = Some False"
proof -
  have v: "\<forall>p \<in> set (m_QueuedSessions full_server). heap full_server p \<noteq> None"
    by (simp add: full_server_def)
  have c: "capacity_free full_server 11"
    by (simp add: capacity_free_def full_server_def World_new_def GetActiveSessionCount_def
        word_sless_alt)
  from RemoveQueuedSession_release [OF v, of 11] c show ?thesis
    by (auto simp: Let_def full_server_def World_new_def)
qed

text \<open>
  C10. \<open>GetQueuedSessionPos\<close> returns 0 for a session that is not in the queue, and
  for a session in it (a queue of fewer than 2 to the power 31 entries) the 1-based index of its first
  occurrence. The session promoted by \<open>RemoveQueuedSession\<close> is sent position 0, and
  its position after the call is 0 as well: the value of a session that is not queued.
\<close>

theorem GetQueuedSessionPos_zero_or_index:
  "(sess \<notin> set (m_QueuedSessions w) \<longrightarrow> GetQueuedSessionPos w sess = 0)
   \<and> (sess \<in> set (m_QueuedSessions w) \<and> length (m_QueuedSessions w) < 2 ^ 31 \<longrightarrow>
        (let i = length (takeWhile (\<lambda>x. x \<noteq> sess) (m_QueuedSessions w))
         in i < length (m_QueuedSessions w) \<and> m_QueuedSessions w ! i = sess
          \<and> sess \<notin> set (take i (m_QueuedSessions w))
          \<and> sint (GetQueuedSessionPos w sess) = int i + 1))
   \<and> ((\<forall>p \<in> set (m_QueuedSessions w). heap w p \<noteq> None) \<and> distinct (m_QueuedSessions w)
        \<and> capacity_free w sess \<and> remove1 sess (m_QueuedSessions w) \<noteq> [] \<longrightarrow>
        (\<exists>w'. RemoveQueuedSession sess w = Some (sess \<in> set (m_QueuedSessions w), w')
           \<and> AuthWaitQue (hd (remove1 sess (m_QueuedSessions w))) 0 \<in> set (events w')
           \<and> GetQueuedSessionPos w' (hd (remove1 sess (m_QueuedSessions w))) = 0))"
proof (intro conjI impI)
  assume "sess \<notin> set (m_QueuedSessions w)"
  then show "GetQueuedSessionPos w sess = 0"
    by (simp add: GetQueuedSessionPos_def queue_pos_notin)
next
  let ?q = "m_QueuedSessions w"
  let ?i = "length (takeWhile (\<lambda>x. x \<noteq> sess) ?q)"
  assume a: "sess \<in> set ?q \<and> length ?q < 2 ^ 31"
  then have lt: "?i < length ?q"
    by (metis (mono_tags, lifting) length_takeWhile_le le_neq_implies_less
        takeWhile_eq_all_conv takeWhile_eq_take take_all_iff)
  from nth_length_takeWhile [OF lt] have n: "?q ! ?i = sess" by simp
  have t: "sess \<notin> set (take ?i ?q)"
    by (metis (mono_tags, lifting) set_takeWhileD takeWhile_eq_take)
  have "GetQueuedSessionPos w sess = of_nat (?i + 1)"
    using a by (simp add: GetQueuedSessionPos_def queue_pos_in)
  moreover have "sint (of_nat (?i + 1) :: int32) = int (?i + 1)"
  proof -
    have "int (?i + 1) < 2 ^ 31" using lt a by simp
    then show ?thesis
      by (simp add: signed_of_nat signed_take_bit_int_eq_self del: of_nat_add of_nat_Suc)
  qed
  ultimately show "let i = ?i in i < length ?q \<and> ?q ! i = sess \<and> sess \<notin> set (take i ?q)
      \<and> sint (GetQueuedSessionPos w sess) = int i + 1"
    using lt n t by (simp add: Let_def)
next
  let ?q = "m_QueuedSessions w"
  let ?q1 = "remove1 sess ?q"
  assume a: "(\<forall>p \<in> set ?q. heap w p \<noteq> None) \<and> distinct ?q \<and> capacity_free w sess \<and> ?q1 \<noteq> []"
  then have valid: "\<forall>p \<in> set ?q. heap w p \<noteq> None" by blast
  have "distinct ?q1" using a by simp
  then have "hd ?q1 \<notin> set (tl ?q1)"
    using a by (metis distinct.simps(2) list.collapse)
  then show "\<exists>w'. RemoveQueuedSession sess w = Some (sess \<in> set ?q, w')
      \<and> AuthWaitQue (hd ?q1) 0 \<in> set (events w')
      \<and> GetQueuedSessionPos w' (hd ?q1) = 0"
    unfolding RemoveQueuedSession_eq [OF valid] Let_def
    using a by (simp add: GetQueuedSessionPos_def queue_pos_notin)
qed

theorem GetQueuedSessionPos_zero_or_index_witness:
  "GetQueuedSessionPos long_queue 14 = 0
   \<and> sint (GetQueuedSessionPos long_queue 12) = 2
   \<and> (\<exists>w'. RemoveQueuedSession 14 long_queue = Some (False, w')
        \<and> AuthWaitQue 13 0 \<in> set (events w') \<and> GetQueuedSessionPos w' 13 = 0)"
proof -
  have a: "14 \<notin> set (m_QueuedSessions long_queue)"
    "12 \<in> set (m_QueuedSessions long_queue) \<and> length (m_QueuedSessions long_queue) < 2 ^ 31"
    by (simp_all add: long_queue_def)
  have b: "(\<forall>p \<in> set (m_QueuedSessions long_queue). heap long_queue p \<noteq> None)
      \<and> distinct (m_QueuedSessions long_queue) \<and> capacity_free long_queue 14
      \<and> remove1 14 (m_QueuedSessions long_queue) \<noteq> []"
    by (simp add: long_queue_def full_server_def capacity_free_def)
  from GetQueuedSessionPos_zero_or_index [of 14 long_queue]
    GetQueuedSessionPos_zero_or_index [of 12 long_queue] a b
  show ?thesis
    by (simp add: Let_def long_queue_def)
qed

section \<open>Admission\<close>

lemma AddSession_impl_unfold:
  "AddSession_impl s w0 =
     (if s = NULL then None
      else
        do { sess \<leftarrow> heap w0 s;
             (removed, w1) \<leftarrow> RemoveSession (accountId sess) w0;
             if \<not> removed then
               do { w2 \<leftarrow> KickPlayer s w1; delete_session s w2 }
             else
               do { (decrease_session, w2) \<leftarrow> replace_old (accountId sess) w1;
                    sess \<leftarrow> heap w2 s;
                    admit_or_queue s sess decrease_session w2 } })"
  unfolding AddSession_impl_def admit_or_queue_def replace_old_def Let_def ..

lemma GetPlayerAmountLimit_upd [simp]:
  "GetPlayerAmountLimit (w\<lparr>m_sessions := ms\<rparr>) = GetPlayerAmountLimit w"
  "GetPlayerAmountLimit (w\<lparr>heap := h\<rparr>) = GetPlayerAmountLimit w"
  "GetPlayerAmountLimit (w\<lparr>m_QueuedSessions := q\<rparr>) = GetPlayerAmountLimit w"
  "GetPlayerAmountLimit (w\<lparr>events := es\<rparr>) = GetPlayerAmountLimit w"
  by (simp_all add: GetPlayerAmountLimit_def)

lemma admit_or_queue_if:
  "admit_or_queue s sess d w2 =
     (let w3 = w2\<lparr>m_sessions := AList.update (accountId sess) s (m_sessions w2)\<rparr>;
          pLimit = GetPlayerAmountLimit w3
      in if queues s sess d w2 then
           do { w4 \<leftarrow> AddQueuedSession s w3;
                Some (UpdateMaxSessionCounters w4) }
         else
           do { w4 \<leftarrow> SendPacket s (AuthOk s) w3;
                let w5 = UpdateMaxSessionCounters w4;
                Some (if pLimit > 0
                      then emit (PopulationUpdate (GetActiveSessionCount w5) pLimit) w5
                      else w5) })"
  unfolding admit_or_queue_def queues_def Let_def ..

lemma admit_or_queue_queued:
  assumes "heap w s = Some sess" "queues s sess d w"
  shows "admit_or_queue s sess d w =
     Some (UpdateMaxSessionCounters
       (w\<lparr>m_sessions := AList.update (accountId sess) s (m_sessions w),
          heap := (heap w)(s \<mapsto> sess\<lparr>inQueue := True\<rparr>),
          m_QueuedSessions := m_QueuedSessions w @ [s],
          events := events w @ [AuthWaitQueue s (queue_pos (m_QueuedSessions w @ [s]) 1 s)]\<rparr>))"
  unfolding admit_or_queue_if
  using assms
  by (simp add: Let_def AddQueuedSession_def SetInQueue_def SendPacket_def emit_def
      GetQueuedSessionPos_def)

lemma admit_or_queue_admitted:
  assumes "heap w s = Some sess" "\<not> queues s sess d w"
  shows "admit_or_queue s sess d w =
     (let w5 = UpdateMaxSessionCounters
           (w\<lparr>m_sessions := AList.update (accountId sess) s (m_sessions w),
              events := events w @ [AuthOk s]\<rparr>)
      in Some (if GetPlayerAmountLimit w > 0
               then emit (PopulationUpdate (GetActiveSessionCount w5) (GetPlayerAmountLimit w)) w5
               else w5))"
  unfolding admit_or_queue_if
  using assms
  by (simp add: Let_def SendPacket_def emit_def)

lemma RemoveSession_none:
  "map_of (m_sessions w) account = None \<Longrightarrow> RemoveSession account w = Some (True, w)"
  by (simp add: RemoveSession_def)

lemma RemoveSession_loading:
  "\<lbrakk>map_of (m_sessions w) account = Some old; old \<noteq> NULL; heap w old = Some osess;
    playerLoading osess\<rbrakk> \<Longrightarrow> RemoveSession account w = Some (False, w)"
  by (simp add: RemoveSession_def)

lemma RemoveSession_kick:
  "\<lbrakk>map_of (m_sessions w) account = Some old; old \<noteq> NULL; heap w old = Some osess;
    \<not> playerLoading osess\<rbrakk> \<Longrightarrow> RemoveSession account w = Some (True, emit (Kicked old) w)"
  by (simp add: RemoveSession_def KickPlayer_def)

lemma AddSession_impl_fresh:
  assumes "s \<noteq> NULL" "heap w s = Some sess" "map_of (m_sessions w) (accountId sess) = None"
  shows "AddSession_impl s w = admit_or_queue s sess True w"
  using assms by (simp add: AddSession_impl_unfold RemoveSession_none replace_old_def)

lemma AddSession_impl_loading:
  assumes "s \<noteq> NULL" "heap w s = Some sess"
    "map_of (m_sessions w) (accountId sess) = Some old" "old \<noteq> NULL"
    "heap w old = Some osess" "playerLoading osess"
  shows "AddSession_impl s w =
     Some (w\<lparr>heap := (heap w)(s := None), events := events w @ [Kicked s, Deleted s]\<rparr>)"
  using assms
  by (simp add: AddSession_impl_unfold RemoveSession_loading[OF assms(3-6)] KickPlayer_def
      delete_session_def emit_def)

lemma AddSession_impl_replace:
  assumes "s \<noteq> NULL" "heap w s = Some sess"
    "map_of (m_sessions w) (accountId sess) = Some old" "old \<noteq> NULL"
    "heap w old = Some osess" "\<not> playerLoading osess"
    "RemoveQueuedSession old (emit (Kicked old) w) = Some (found, w1)"
    "heap w1 old \<noteq> None" "m_sessions w1 = m_sessions w"
    "s \<noteq> old" "heap w1 s = Some sess1"
  shows "AddSession_impl s w =
     admit_or_queue s sess1 (\<not> found)
       (emit (Deleted old) (w1\<lparr>heap := (heap w1)(old := None)\<rparr>))"
  using assms(1,2,4,7-11)
  by (auto simp: AddSession_impl_unfold RemoveSession_kick[OF assms(3-6)] replace_old_def
      assms(3) emit_def delete_session_def)

text \<open>
  C4. While the session of an account is still loading, \<open>RemoveSession\<close> for the
  account returns false and changes nothing (the session is not kicked), and
  \<open>AddSession_\<close> for a new session of the account kicks and deletes the new session
  and leaves map and queue as they are.
\<close>

theorem loading_session_is_kept:
  assumes "map_of (m_sessions w) account = Some old" and "old \<noteq> NULL"
    and "heap w old = Some osess" and "playerLoading osess"
  shows "RemoveSession account w = Some (False, w)
     \<and> (\<forall>s sess. s \<noteq> NULL \<and> heap w s = Some sess \<and> accountId sess = account \<longrightarrow>
          AddSession_impl s w =
            Some (w\<lparr>heap := (heap w)(s := None), events := events w @ [Kicked s, Deleted s]\<rparr>))"
  using assms RemoveSession_loading [OF assms]
  by (auto simp: AddSession_impl_loading)

theorem loading_session_is_kept_witness:
  "RemoveSession 1 loading_server = Some (False, loading_server)
   \<and> map_option m_sessions (AddSession_impl 14 loading_server) = Some [(1, 11), (2, 12), (3, 13)]
   \<and> map_option m_QueuedSessions (AddSession_impl 14 loading_server) = Some [13]
   \<and> map_option events (AddSession_impl 14 loading_server) = Some [Kicked 14, Deleted 14]
   \<and> map_option (\<lambda>w. heap w 14) (AddSession_impl 14 loading_server) = Some None"
proof -
  have a: "map_of (m_sessions loading_server) 1 = Some 11" "(11 :: ptr) \<noteq> NULL"
    "heap loading_server 11 = Some ((plain_player 1)\<lparr>playerLoading := True\<rparr>)"
    "playerLoading ((plain_player 1)\<lparr>playerLoading := True\<rparr>)"
    by (simp_all add: loading_server_def full_server_def NULL_def)
  have b: "(14 :: ptr) \<noteq> NULL \<and> heap loading_server 14 = Some (plain_player 1)
      \<and> accountId (plain_player 1) = 1"
    by (simp add: loading_server_def full_server_def NULL_def plain_player_def)
  from loading_session_is_kept [OF a] b
  have "RemoveSession 1 loading_server = Some (False, loading_server)"
    and "AddSession_impl 14 loading_server =
      Some (loading_server\<lparr>heap := (heap loading_server)(14 := None),
        events := events loading_server @ [Kicked 14, Deleted 14]\<rparr>)"
    by blast+
  then show ?thesis
    by (simp add: loading_server_def full_server_def World_new_def)
qed

section \<open>The directory stays well-formed\<close>

lemma account_of_None: "account_of w p = None \<longleftrightarrow> heap w p = None"
  by (simp add: account_of_def)

lemma dir_ok_queue_valid:
  assumes "dir_ok w" "p \<in> set (m_QueuedSessions w)"
  shows "heap w p \<noteq> None"
proof -
  from assms obtain k where "map_of (m_sessions w) k = Some p"
    unfolding dir_ok_def ran_def by blast
  with assms(1) have "account_of w p = Some k" unfolding dir_ok_def by blast
  then show ?thesis by (auto simp: account_of_def)
qed

lemma clear_inQueue_account [simp]:
  "map_option accountId (clear_inQueue p h x) = map_option accountId (h x)"
  by (auto simp: clear_inQueue_def split: option.splits)

text \<open>What \<open>RemoveQueuedSession\<close> leaves of a well-formed directory.\<close>

lemma RemoveQueuedSession_proj:
  assumes "dir_ok w"
  shows "\<exists>w'. RemoveQueuedSession sess w = Some (sess \<in> set (m_QueuedSessions w), w')
     \<and> m_sessions w' = m_sessions w \<and> addSessQueue w' = addSessQueue w
     \<and> m_playerLimit w' = m_playerLimit w
     \<and> (\<forall>p. account_of w' p = account_of w p)
     \<and> (\<forall>p. p \<noteq> sess \<longrightarrow> p \<notin> set (m_QueuedSessions w) \<longrightarrow> heap w' p = heap w p)
     \<and> distinct (m_QueuedSessions w')
     \<and> set (m_QueuedSessions w') \<subseteq> set (m_QueuedSessions w) - {sess}
     \<and> (\<exists>evs. events w' = events w @ evs)"
proof -
  let ?q = "m_QueuedSessions w"
  have valid: "\<forall>p \<in> set ?q. heap w p \<noteq> None"
    using assms dir_ok_queue_valid by blast
  have d: "distinct ?q" using assms by (simp add: dir_ok_def)
  have s1: "set (remove1 sess ?q) = set ?q - {sess}" using d by (rule set_remove1_eq)
  have s2: "set (tl (remove1 sess ?q)) \<subseteq> set ?q - {sess}"
    using s1 by (metis list.set_sel(2) subsetI tl_Nil)
  have d1: "distinct (remove1 sess ?q)" "distinct (tl (remove1 sess ?q))"
    using d by (simp_all add: distinct_tl)
  have hdq: "remove1 sess ?q \<noteq> [] \<Longrightarrow> hd (remove1 sess ?q) \<in> set ?q"
    using s1 by (metis Diff_iff hd_in_set)
  show ?thesis
    unfolding RemoveQueuedSession_eq [OF valid] Let_def
    using s1 s2 d1 hdq by (auto simp: account_of_def clear_inQueue_apply option.map_comp o_def)
qed

lemma ran_map_of_update:
  "ran ((map_of al)(k \<mapsto> v)) \<subseteq> insert v (ran (map_of al))"
  by (auto simp: ran_def)

text \<open>The admission step proper, on a directory that does not yet hold the session.\<close>

lemma admit_or_queue_proj:
  assumes "heap w s = Some sess"
  shows "\<exists>w'. admit_or_queue s sess d w = Some w'
     \<and> m_sessions w' = AList.update (accountId sess) s (m_sessions w)
     \<and> addSessQueue w' = addSessQueue w
     \<and> m_playerLimit w' = m_playerLimit w
     \<and> (\<forall>p. account_of w' p = account_of w p)
     \<and> (\<forall>p. p \<noteq> s \<longrightarrow> heap w' p = heap w p)
     \<and> m_QueuedSessions w' = (if queues s sess d w then m_QueuedSessions w @ [s] else m_QueuedSessions w)
     \<and> heap w' s = Some (if queues s sess d w then sess\<lparr>inQueue := True\<rparr> else sess)
     \<and> events w' = events w @
          (if queues s sess d w
           then [AuthWaitQueue s (queue_pos (m_QueuedSessions w @ [s]) 1 s)]
           else AuthOk s #
             (if GetPlayerAmountLimit w > 0
              then [PopulationUpdate
                      (of_nat (length (AList.update (accountId sess) s (m_sessions w)))
                         - of_nat (length (m_QueuedSessions w)))
                      (GetPlayerAmountLimit w)]
              else []))"
proof (cases "queues s sess d w")
  case True
  show ?thesis
    unfolding admit_or_queue_queued [OF assms True]
    using assms True by (simp add: UpdateMaxSessionCounters_def account_of_def)
next
  case False
  show ?thesis
    unfolding admit_or_queue_admitted [OF assms False]
    using assms False
    by (simp add: UpdateMaxSessionCounters_def account_of_def Let_def emit_def
        GetActiveSessionCount_def)
qed

lemma dir_ok_insert:
  assumes ok: "dir_ok w"
    and s: "s \<noteq> NULL" "account_of w' s = Some acc" "s \<notin> ran (map_of (m_sessions w))"
    and ms: "m_sessions w' = AList.update acc s (m_sessions w)"
    and acc: "\<forall>p. p \<in> ran (map_of (m_sessions w)) \<longrightarrow> map_of (m_sessions w) acc \<noteq> Some p
                \<longrightarrow> account_of w' p = account_of w p"
    and q: "distinct (m_QueuedSessions w')"
      "set (m_QueuedSessions w') \<subseteq> insert s (set (m_QueuedSessions w) - {p. map_of (m_sessions w) acc = Some p})"
  shows "dir_ok w'"
proof -
  let ?m = "map_of (m_sessions w)"
  have m': "map_of (m_sessions w') = ?m(acc \<mapsto> s)"
    by (simp add: ms update_conv')
  have inv: "?m k = Some p \<Longrightarrow> p \<noteq> NULL \<and> account_of w p = Some k" for k p
    using ok unfolding dir_ok_def by blast
  have I1: "distinct (map fst (m_sessions w'))"
    using ok by (simp add: ms dir_ok_def distinct_update)
  have I2: "p \<noteq> NULL \<and> account_of w' p = Some k" if "map_of (m_sessions w') k = Some p" for k p
  proof (cases "k = acc")
    case True
    with that m' have "p = s" by simp
    then show ?thesis using s True by simp
  next
    case False
    with that m' have k: "?m k = Some p" by simp
    then have "p \<in> ran ?m" by (auto simp: ran_def)
    moreover have "?m acc \<noteq> Some p" using inv [OF k] inv [of acc p] False by auto
    ultimately have "account_of w' p = account_of w p" using acc by blast
    then show ?thesis using inv [OF k] by simp
  qed
  have I4: "set (m_QueuedSessions w') \<subseteq> ran (map_of (m_sessions w'))"
  proof
    fix p assume p: "p \<in> set (m_QueuedSessions w')"
    show "p \<in> ran (map_of (m_sessions w'))"
    proof (cases "p = s")
      case True
      then show ?thesis by (auto simp: m' ran_def)
    next
      case False
      with p q(2) have pq: "p \<in> set (m_QueuedSessions w)" and no: "?m acc \<noteq> Some p" by auto
      from pq ok obtain k where k: "?m k = Some p" unfolding dir_ok_def ran_def by blast
      with no have "k \<noteq> acc" by auto
      with k have "(?m(acc \<mapsto> s)) k = Some p" by simp
      then show ?thesis unfolding m' ran_def by blast
    qed
  qed
  show ?thesis
    unfolding dir_ok_def using I1 I2 q(1) I4 by blast
qed

lemma dir_ok_events [simp]: "dir_ok (emit e w) = dir_ok w"
  by (simp add: dir_ok_def emit_def account_of_def)

lemma queues_cong:
  "m_sessions w' = m_sessions w \<Longrightarrow> m_playerLimit w' = m_playerLimit w \<Longrightarrow>
   queues s sess d w' = queues s sess d w"
  by (simp add: queues_def GetActiveAndQueuedSessionCount_def GetPlayerAmountLimit_def)

lemma GetPlayerAmountLimit_cong:
  "m_playerLimit w' = m_playerLimit w \<Longrightarrow> GetPlayerAmountLimit w' = GetPlayerAmountLimit w"
  by (simp add: GetPlayerAmountLimit_def)

text \<open>
  One call of \<open>AddSession_\<close> on a well-formed directory, for the first of the pending
  sessions: it returns, the directory is well-formed again, and the result is the
  refusal or the admission described by \<open>admitted_as\<close>.
\<close>

lemma AddSession_impl_step:
  assumes ok: "dir_ok w" and pend: "pending_ok (s # ss) w"
  shows "\<exists>w'. AddSession_impl s w = Some w' \<and> dir_ok w' \<and> pending_ok ss w'
     \<and> addSessQueue w' = addSessQueue w \<and> m_playerLimit w' = m_playerLimit w
     \<and> (\<forall>sess. heap w s = Some sess \<longrightarrow>
          (if refused s w
           then w' = w\<lparr>heap := (heap w)(s := None), events := events w @ [Kicked s, Deleted s]\<rparr>
           else admitted_as s sess w w'))"
proof -
  let ?m = "map_of (m_sessions w)"
  from pend have s0: "s \<noteq> NULL" and sr: "s \<notin> ran ?m" and sss: "s \<notin> set ss"
    and dss: "distinct ss"
    and rest: "\<forall>p \<in> set ss. p \<noteq> NULL \<and> heap w p \<noteq> None \<and> p \<notin> ran ?m"
    by (auto simp: pending_ok_def)
  from pend obtain sess where hs: "heap w s = Some sess"
    by (auto simp: pending_ok_def)
  let ?acc = "accountId sess"
  have inv: "?m k = Some p \<Longrightarrow> p \<noteq> NULL \<and> account_of w p = Some k" for k p
    using ok unfolding dir_ok_def by blast
  have sq: "s \<notin> set (m_QueuedSessions w)"
    using ok sr unfolding dir_ok_def by blast
  show ?thesis
  proof (cases "?m ?acc")
    case None
    from admit_or_queue_proj [OF hs, of True] obtain w' where
      w': "admit_or_queue s sess True w = Some w'"
      "m_sessions w' = AList.update ?acc s (m_sessions w)"
      "addSessQueue w' = addSessQueue w" "m_playerLimit w' = m_playerLimit w"
      "\<forall>p. account_of w' p = account_of w p"
      "\<forall>p. p \<noteq> s \<longrightarrow> heap w' p = heap w p"
      "m_QueuedSessions w' = (if queues s sess True w then m_QueuedSessions w @ [s] else m_QueuedSessions w)"
      "heap w' s = Some (if queues s sess True w then sess\<lparr>inQueue := True\<rparr> else sess)"
      "events w' = events w @
          (if queues s sess True w
           then [AuthWaitQueue s (queue_pos (m_QueuedSessions w @ [s]) 1 s)]
           else AuthOk s #
             (if GetPlayerAmountLimit w > 0
              then [PopulationUpdate
                      (of_nat (length (AList.update (accountId sess) s (m_sessions w)))
                         - of_nat (length (m_QueuedSessions w)))
                      (GetPlayerAmountLimit w)]
              else []))"
      by blast
    have a: "AddSession_impl s w = Some w'"
      using AddSession_impl_fresh [OF s0 hs None] w'(1) by simp
    have "dir_ok w'"
    proof (rule dir_ok_insert [OF ok s0 _ sr w'(2)])
      show "account_of w' s = Some ?acc" using w'(5) hs by (simp add: account_of_def)
      show "\<forall>p. p \<in> ran ?m \<longrightarrow> ?m ?acc \<noteq> Some p \<longrightarrow> account_of w' p = account_of w p"
        using w'(5) by simp
      show "distinct (m_QueuedSessions w')"
        using ok sq by (simp add: w'(7) dir_ok_def)
      show "set (m_QueuedSessions w') \<subseteq>
          insert s (set (m_QueuedSessions w) - {p. ?m ?acc = Some p})"
        using None by (auto simp: w'(7))
    qed
    moreover have "pending_ok ss w'"
      unfolding pending_ok_def
      using dss rest sss w'(6) ran_map_of_update [of "m_sessions w" ?acc s]
      by (auto simp: w'(2) update_conv')
    moreover have "\<not> refused s w" using hs None by (simp add: refused_def)
    moreover have "admitted_as s sess w w'"
    proof -
      have d: "decrease_session_of w ?acc = True" using None by (simp add: decrease_session_of_def)
      have "\<exists>q1 e1. distinct q1 \<and> s \<notin> set q1
             \<and> set q1 \<subseteq> set (m_QueuedSessions w) - {p. ?m ?acc = Some p}
             \<and> m_QueuedSessions w' = (if queues s sess True w then q1 @ [s] else q1)
             \<and> events w' = events w
                 @ (case ?m ?acc of None \<Rightarrow> [] | Some p \<Rightarrow> Kicked p # e1 @ [Deleted p])
                 @ (if queues s sess True w then [AuthWaitQueue s (of_nat (length q1) + 1)]
                    else AuthOk s #
                      (if GetPlayerAmountLimit w > 0
                       then [PopulationUpdate
                               (of_nat (length (AList.update ?acc s (m_sessions w)))
                                  - of_nat (length q1))
                               (GetPlayerAmountLimit w)]
                       else []))"
        apply (rule exI [of _ "m_QueuedSessions w"])
        apply (rule exI [of _ "[]"])
        using ok sq None w'(7,9) by (simp add: dir_ok_def queue_pos_last)
      then show ?thesis
        unfolding admitted_as_def Let_def d
        using w'(2,8) None by simp
    qed
    ultimately show ?thesis using a w'(3,4) hs by auto
  next
    case (Some old)
    from inv [OF Some] have old0: "old \<noteq> NULL" and olda: "account_of w old = Some ?acc"
      by auto
    then obtain osess where ho: "heap w old = Some osess"
      by (auto simp: account_of_def)
    have oldr: "old \<in> ran ?m" using Some by (auto simp: ran_def)
    with sr have sold: "s \<noteq> old" by auto
    show ?thesis
    proof (cases "playerLoading osess")
      case True
      let ?w' = "w\<lparr>heap := (heap w)(s := None), events := events w @ [Kicked s, Deleted s]\<rparr>"
      have a: "AddSession_impl s w = Some ?w'"
        by (rule AddSession_impl_loading [OF s0 hs Some old0 ho True])
      have "dir_ok ?w'"
        unfolding dir_ok_def
        using ok sr by (auto simp: dir_ok_def account_of_def ran_def)
      moreover have "pending_ok ss ?w'"
        unfolding pending_ok_def using dss rest sss by auto
      moreover have "refused s w" using hs Some ho True by (simp add: refused_def)
      ultimately show ?thesis using a hs by simp
    next
      case False
      let ?w0 = "emit (Kicked old) w"
      have ok0: "dir_ok ?w0" using ok by simp
      from RemoveQueuedSession_proj [OF ok0, of old] obtain w1 where
        w1: "RemoveQueuedSession old ?w0 = Some (old \<in> set (m_QueuedSessions ?w0), w1)"
        "m_sessions w1 = m_sessions ?w0" "addSessQueue w1 = addSessQueue ?w0"
        "m_playerLimit w1 = m_playerLimit ?w0"
        "\<forall>p. account_of w1 p = account_of ?w0 p"
        "\<forall>p. p \<noteq> old \<longrightarrow> p \<notin> set (m_QueuedSessions ?w0) \<longrightarrow> heap w1 p = heap ?w0 p"
        "distinct (m_QueuedSessions w1)"
        "set (m_QueuedSessions w1) \<subseteq> set (m_QueuedSessions ?w0) - {old}"
        "\<exists>evs. events w1 = events ?w0 @ evs"
        by blast
      from w1(9) obtain e1 where e1: "events w1 = events w @ Kicked old # e1"
        by (auto simp: emit_def)
      have e0: "m_sessions ?w0 = m_sessions w" "m_QueuedSessions ?w0 = m_QueuedSessions w"
        "heap ?w0 = heap w" "addSessQueue ?w0 = addSessQueue w"
        "m_playerLimit ?w0 = m_playerLimit w"
        by (simp_all add: emit_def)
      have acc1: "account_of w1 p = account_of w p" for p
        using w1(5) by (simp add: account_of_def e0)
      have h1o: "heap w1 old \<noteq> None"
        using acc1 [of old] olda by (auto simp: account_of_def)
      have h1s: "heap w1 s = Some sess"
        using w1(6) sold sq hs by (simp add: e0)
      let ?w2 = "emit (Deleted old) (w1\<lparr>heap := (heap w1)(old := None)\<rparr>)"
      have h2s: "heap ?w2 s = Some sess" using h1s sold by (simp add: emit_def)
      let ?d = "\<not> (old \<in> set (m_QueuedSessions ?w0))"
      from admit_or_queue_proj [OF h2s, of ?d] obtain w' where
        w': "admit_or_queue s sess ?d ?w2 = Some w'"
        "m_sessions w' = AList.update ?acc s (m_sessions ?w2)"
        "addSessQueue w' = addSessQueue ?w2" "m_playerLimit w' = m_playerLimit ?w2"
        "\<forall>p. account_of w' p = account_of ?w2 p"
        "\<forall>p. p \<noteq> s \<longrightarrow> heap w' p = heap ?w2 p"
        "m_QueuedSessions w' = (if queues s sess ?d ?w2 then m_QueuedSessions ?w2 @ [s] else m_QueuedSessions ?w2)"
        "heap w' s = Some (if queues s sess ?d ?w2 then sess\<lparr>inQueue := True\<rparr> else sess)"
        "events w' = events ?w2 @
          (if queues s sess ?d ?w2
           then [AuthWaitQueue s (queue_pos (m_QueuedSessions ?w2 @ [s]) 1 s)]
           else AuthOk s #
             (if GetPlayerAmountLimit ?w2 > 0
              then [PopulationUpdate
                      (of_nat (length (AList.update (accountId sess) s (m_sessions ?w2)))
                         - of_nat (length (m_QueuedSessions ?w2)))
                      (GetPlayerAmountLimit ?w2)]
              else []))"
        by blast
      have e2: "m_sessions ?w2 = m_sessions w" "m_QueuedSessions ?w2 = m_QueuedSessions w1"
        "addSessQueue ?w2 = addSessQueue w" "m_playerLimit ?w2 = m_playerLimit w"
        by (simp_all add: emit_def w1 e0)
      have acc2: "p \<noteq> old \<Longrightarrow> account_of ?w2 p = account_of w p" for p
        using acc1 [of p] by (simp add: account_of_def emit_def)
      have a: "AddSession_impl s w = Some w'"
        using AddSession_impl_replace [OF s0 hs Some old0 ho False w1(1) h1o _ sold h1s]
          w'(1) w1(2) e0(1) by simp
      have "dir_ok w'"
      proof (rule dir_ok_insert [OF ok s0 _ sr])
        show "m_sessions w' = AList.update ?acc s (m_sessions w)" using w'(2) e2(1) by simp
        show "account_of w' s = Some ?acc"
          using w'(5) acc2 [OF sold] hs by (simp add: account_of_def)
        show "\<forall>p. p \<in> ran ?m \<longrightarrow> ?m ?acc \<noteq> Some p \<longrightarrow> account_of w' p = account_of w p"
          using w'(5) acc2 Some by auto
        have "s \<notin> set (m_QueuedSessions w1)" using w1(8) sq by (auto simp: e0)
        then show "distinct (m_QueuedSessions w')"
          using w1(7) by (simp add: w'(7) e2)
        show "set (m_QueuedSessions w') \<subseteq>
            insert s (set (m_QueuedSessions w) - {p. ?m ?acc = Some p})"
          using w1(8) Some by (auto simp: w'(7) e2 e0)
      qed
      moreover have "pending_ok ss w'"
      proof -
        have "heap w' p \<noteq> None \<and> p \<notin> ran (map_of (m_sessions w'))" if p: "p \<in> set ss" for p
        proof -
          from p rest have pr: "p \<notin> ran ?m" and hp: "heap w p \<noteq> None" by auto
          from p sss have ps: "p \<noteq> s" by auto
          from pr oldr have po: "p \<noteq> old" by auto
          have "p \<notin> set (m_QueuedSessions w)" using ok pr unfolding dir_ok_def by blast
          then have "heap w1 p = heap w p" using w1(6) po by (simp add: e0)
          then have "heap w' p = heap w p" using w'(6) ps po by (simp add: emit_def)
          moreover have "p \<notin> ran (map_of (m_sessions w'))"
            using pr ps ran_map_of_update [of "m_sessions w" ?acc s]
            by (auto simp: w'(2) e2 update_conv')
          ultimately show ?thesis using hp by simp
        qed
        then show ?thesis unfolding pending_ok_def using dss rest by blast
      qed
      moreover have "\<not> refused s w" using hs Some ho False by (simp add: refused_def)
      moreover have "admitted_as s sess w w'"
      proof -
        have d: "decrease_session_of w ?acc = ?d"
          using Some by (simp add: decrease_session_of_def e0)
        have qc: "queues s sess ?d ?w2 = queues s sess ?d w"
          by (rule queues_cong) (simp_all add: e2)
        have lc: "GetPlayerAmountLimit ?w2 = GetPlayerAmountLimit w"
          by (rule GetPlayerAmountLimit_cong) (simp add: e2)
        have sq1: "s \<notin> set (m_QueuedSessions w1)" using w1(8) sq by (auto simp: e0)
        have ev2: "events ?w2 = events w @ Kicked old # e1 @ [Deleted old]"
          by (simp add: emit_def e1)
        have "\<exists>q1 e1. distinct q1 \<and> s \<notin> set q1
             \<and> set q1 \<subseteq> set (m_QueuedSessions w) - {p. ?m ?acc = Some p}
             \<and> m_QueuedSessions w' = (if queues s sess ?d w then q1 @ [s] else q1)
             \<and> events w' = events w
                 @ (case ?m ?acc of None \<Rightarrow> [] | Some p \<Rightarrow> Kicked p # e1 @ [Deleted p])
                 @ (if queues s sess ?d w then [AuthWaitQueue s (of_nat (length q1) + 1)]
                    else AuthOk s #
                      (if GetPlayerAmountLimit w > 0
                       then [PopulationUpdate
                               (of_nat (length (AList.update ?acc s (m_sessions w)))
                                  - of_nat (length q1))
                               (GetPlayerAmountLimit w)]
                       else []))"
        proof (intro exI conjI)
          show "distinct (m_QueuedSessions w1)" by (rule w1(7))
          show "s \<notin> set (m_QueuedSessions w1)" by (rule sq1)
          show "set (m_QueuedSessions w1) \<subseteq> set (m_QueuedSessions w) - {p. ?m ?acc = Some p}"
            using w1(8) Some by (auto simp: e0)
          show "m_QueuedSessions w' =
              (if queues s sess ?d w then m_QueuedSessions w1 @ [s] else m_QueuedSessions w1)"
            using w'(7) unfolding qc e2 .
          show "events w' = events w
                 @ (case ?m ?acc of None \<Rightarrow> [] | Some p \<Rightarrow> Kicked p # e1 @ [Deleted p])
                 @ (if queues s sess ?d w
                    then [AuthWaitQueue s (of_nat (length (m_QueuedSessions w1)) + 1)]
                    else AuthOk s #
                      (if GetPlayerAmountLimit w > 0
                       then [PopulationUpdate
                               (of_nat (length (AList.update ?acc s (m_sessions w)))
                                  - of_nat (length (m_QueuedSessions w1)))
                               (GetPlayerAmountLimit w)]
                       else []))"
            using w'(9) unfolding qc lc e2 ev2
            by (simp add: Some queue_pos_last [OF sq1])
        qed
        moreover have "heap w' old = None"
          using w'(6) sold by (simp add: emit_def)
        moreover have "heap w' s = Some (if queues s sess ?d w then sess\<lparr>inQueue := True\<rparr> else sess)"
          using w'(8) unfolding qc .
        moreover have "m_sessions w' = AList.update ?acc s (m_sessions w)"
          using w'(2) unfolding e2 .
        ultimately show ?thesis
          unfolding admitted_as_def Let_def d
          using Some by simp
      qed
      ultimately show ?thesis using a w'(3,4) e2 hs by auto
    qed
  qed
qed

lemma drain_ok:
  "dir_ok w \<Longrightarrow> pending_ok ps w \<Longrightarrow>
   \<exists>w'. drain ps w = Some w' \<and> dir_ok w' \<and> addSessQueue w' = addSessQueue w"
proof (induction ps arbitrary: w)
  case Nil
  then show ?case by simp
next
  case (Cons s ss)
  from AddSession_impl_step [OF Cons.prems] obtain w1 where
    w1: "AddSession_impl s w = Some w1" "dir_ok w1" "pending_ok ss w1"
    "addSessQueue w1 = addSessQueue w"
    by blast
  from Cons.IH [OF w1(2,3)] w1(1,4) show ?case by auto
qed

lemma dir_ok_erase:
  assumes ok: "dir_ok w" and k: "map_of (m_sessions w) k = Some p"
    and ms: "m_sessions w' = AList.delete k (m_sessions w)"
    and acc: "\<forall>x. x \<noteq> p \<longrightarrow> account_of w' x = account_of w x"
    and q: "distinct (m_QueuedSessions w')"
      "set (m_QueuedSessions w') \<subseteq> set (m_QueuedSessions w) - {p}"
  shows "dir_ok w'"
proof -
  let ?m = "map_of (m_sessions w)"
  have m': "map_of (m_sessions w') = ?m(k := None)"
    by (simp add: ms delete_conv')
  have inv: "?m j = Some x \<Longrightarrow> x \<noteq> NULL \<and> account_of w x = Some j" for j x
    using ok unfolding dir_ok_def by blast
  have ne: "x \<noteq> p" if "?m j = Some x" "j \<noteq> k" for j x
    using inv [OF that(1)] inv [OF k] that(2) by auto
  have I1: "distinct (map fst (m_sessions w'))"
    using ok by (simp add: ms dir_ok_def distinct_delete)
  have I2: "x \<noteq> NULL \<and> account_of w' x = Some j" if "map_of (m_sessions w') j = Some x" for j x
  proof -
    from that m' have j: "j \<noteq> k" "?m j = Some x" by (auto split: if_splits)
    from ne [OF j(2,1)] acc have "account_of w' x = account_of w x" by simp
    with inv [OF j(2)] show ?thesis by simp
  qed
  have I4: "set (m_QueuedSessions w') \<subseteq> ran (map_of (m_sessions w'))"
  proof
    fix x assume x: "x \<in> set (m_QueuedSessions w')"
    with q(2) have xq: "x \<in> set (m_QueuedSessions w)" and xp: "x \<noteq> p" by auto
    from xq ok obtain j where j: "?m j = Some x" unfolding dir_ok_def ran_def by blast
    with k xp have "j \<noteq> k" by auto
    with j have "(?m(k := None)) j = Some x" by simp
    then show "x \<in> ran (map_of (m_sessions w'))" unfolding m' ran_def by blast
  qed
  show ?thesis unfolding dir_ok_def using I1 I2 q(1) I4 by blast
qed

lemma sweep_ok:
  "dir_ok w \<Longrightarrow>
   \<exists>w'. sweep alive ks w = Some w' \<and> dir_ok w' \<and> addSessQueue w' = addSessQueue w"
proof (induction ks arbitrary: w)
  case Nil
  then show ?case by simp
next
  case (Cons k ks)
  show ?case
  proof (cases "map_of (m_sessions w) k")
    case None
    with Cons.IH [OF Cons.prems] show ?thesis by simp
  next
    case (Some p)
    from Cons.prems Some have p0: "p \<noteq> NULL" and pa: "account_of w p = Some k"
      unfolding dir_ok_def by blast+
    then have hp: "heap w p \<noteq> None" by (auto simp: account_of_def)
    show ?thesis
    proof (cases "alive p")
      case True
      with Cons.IH [OF Cons.prems] Some hp show ?thesis by simp
    next
      case False
      from RemoveQueuedSession_proj [OF Cons.prems, of p] obtain w1 where
        w1: "RemoveQueuedSession p w = Some (p \<in> set (m_QueuedSessions w), w1)"
        "m_sessions w1 = m_sessions w" "addSessQueue w1 = addSessQueue w"
        "\<forall>x. account_of w1 x = account_of w x"
        "distinct (m_QueuedSessions w1)"
        "set (m_QueuedSessions w1) \<subseteq> set (m_QueuedSessions w) - {p}"
        by blast
      let ?w2 = "w1\<lparr>m_sessions := AList.delete k (m_sessions w1)\<rparr>"
      let ?w3 = "emit (Deleted p) (?w2\<lparr>heap := (heap ?w2)(p := None)\<rparr>)"
      have "account_of w1 p = Some k" using w1(4) pa by simp
      then have h1: "heap w1 p \<noteq> None" by (auto simp: account_of_def)
      have del: "delete_session p ?w2 = Some ?w3"
        using p0 h1 by (simp add: delete_session_def)
      have ok3: "dir_ok ?w3"
      proof (rule dir_ok_erase [OF Cons.prems Some])
        show "m_sessions ?w3 = AList.delete k (m_sessions w)" by (simp add: emit_def w1(2))
        show "\<forall>x. x \<noteq> p \<longrightarrow> account_of ?w3 x = account_of w x"
          using w1(4) by (simp add: account_of_def emit_def)
        show "distinct (m_QueuedSessions ?w3)" using w1(5) by (simp add: emit_def)
        show "set (m_QueuedSessions ?w3) \<subseteq> set (m_QueuedSessions w) - {p}"
          using w1(6) by (simp add: emit_def)
      qed
      have a3: "addSessQueue ?w3 = addSessQueue w" by (simp add: emit_def w1(3))
      from Cons.IH [OF ok3] obtain w' where
        "sweep alive ks ?w3 = Some w'" "dir_ok w'" "addSessQueue w' = addSessQueue ?w3"
        by blast
      then show ?thesis
        using Some hp False w1(1) del a3 by (simp add: Let_def)
    qed
  qed
qed

lemma UpdateSessions_ok:
  assumes "dir_ok w" "pending_ok (addSessQueue w) w"
  shows "\<exists>w'. UpdateSessions alive w = Some w' \<and> dir_ok w' \<and> addSessQueue w' = []"
proof -
  let ?w0 = "w\<lparr>addSessQueue := []\<rparr>"
  have "dir_ok ?w0" "pending_ok (addSessQueue w) ?w0"
    using assms by (simp_all add: dir_ok_def pending_ok_def account_of_def)
  from drain_ok [OF this] obtain w1 where
    w1: "drain (addSessQueue w) ?w0 = Some w1" "dir_ok w1" "addSessQueue w1 = []"
    by auto
  from sweep_ok [OF w1(2), of alive "sort (map fst (m_sessions w1))"] w1(1,3)
  show ?thesis by (auto simp: UpdateSessions_def)
qed

lemma directory_inv_cong:
  assumes "directory_inv w" "\<forall>p. account_of w' p = account_of w p"
    "m_sessions w' = m_sessions w"
    "m_QueuedSessions w' = m_QueuedSessions w" "addSessQueue w' = addSessQueue w"
  shows "directory_inv w'"
proof -
  have "heap w' p = None \<longleftrightarrow> heap w p = None" for p
    using assms(2) account_of_None by metis
  then show ?thesis
    using assms by (simp add: directory_inv_def dir_ok_def pending_ok_def)
qed

lemma shutdown_step_directory:
  "heap (shutdown_step x w) = heap w" "m_sessions (shutdown_step x w) = m_sessions w"
  "m_QueuedSessions (shutdown_step x w) = m_QueuedSessions w"
  "addSessQueue (shutdown_step x w) = addSessQueue w"
  by (cases x; simp add: ShutdownServ_def ShutdownCancel_def UpdateGameTime_def ShutdownMsg_def
      SendServerMessage_def emit_def Let_def)+

lemma reachable_directory_inv: "reachable w \<Longrightarrow> directory_inv w"
proof (induction rule: reachable.induct)
  case (init thisTime timers)
  show ?case by (simp add: directory_inv_def dir_ok_def pending_ok_def World_new_def)
next
  case (connect w s sess)
  let ?m = "map_of (m_sessions w)"
  from connect.IH have ok: "dir_ok w" and pend: "pending_ok (addSessQueue w) w"
    by (simp_all add: directory_inv_def)
  have live: "?m k = Some p \<Longrightarrow> heap w p \<noteq> None" for k p
    using ok unfolding dir_ok_def account_of_def by fastforce
  have sr: "s \<notin> ran ?m" using live connect.hyps(3) unfolding ran_def by fastforce
  have sp: "s \<notin> set (addSessQueue w)" using pend connect.hyps(3) unfolding pending_ok_def by blast
  have "dir_ok (connect s sess w)"
    using ok sr unfolding dir_ok_def account_of_def connect_def AddSession_def ran_def by auto
  moreover have "pending_ok (addSessQueue w @ [s]) (connect s sess w)"
    using pend sr sp connect.hyps(2) unfolding pending_ok_def connect_def AddSession_def by auto
  ultimately show ?case by (simp add: directory_inv_def connect_def AddSession_def)
next
  case (admit w s ss w')
  let ?w0 = "w\<lparr>addSessQueue := ss\<rparr>"
  from admit.IH admit.hyps(2) have "dir_ok ?w0" "pending_ok (s # ss) ?w0"
    by (simp_all add: directory_inv_def dir_ok_def pending_ok_def account_of_def)
  from AddSession_impl_step [OF this] admit.hyps(3) show ?case
    by (auto simp: directory_inv_def)
next
  case (update w alive w')
  from update.IH have "dir_ok w" "pending_ok (addSessQueue w) w"
    by (simp_all add: directory_inv_def)
  from UpdateSessions_ok [OF this, of alive] update.hyps(2) show ?case
    by (auto simp: directory_inv_def pending_ok_def)
next
  case (kick w account removed w')
  from kick.hyps(2) have "w' = w \<or> (\<exists>p. w' = emit (Kicked p) w)"
    by (auto simp: RemoveSession_def KickPlayer_def split: option.splits if_splits bind_splits)
  then show ?case
    using kick.IH by (auto intro: directory_inv_cong simp: emit_def account_of_def)
next
  case (loading w p sess b)
  from loading.hyps(2) have
    "\<forall>x. account_of (w\<lparr>heap := (heap w)(p \<mapsto> sess\<lparr>playerLoading := b\<rparr>)\<rparr>) x = account_of w x"
    by (simp add: account_of_def)
  with loading.IH show ?case by (auto intro: directory_inv_cong)
next
  case (limit w l)
  then show ?case by (auto intro: directory_inv_cong simp: SetPlayerLimit_def account_of_def)
next
  case (shutdown w x)
  then show ?case by (auto intro: directory_inv_cong simp: shutdown_step_directory account_of_def)
next
  case (timers w upd diff)
  then show ?case by (auto intro: directory_inv_cong simp: Update_timers_def account_of_def)
qed

lemma dir_ok_directory:
  assumes "dir_ok w" "p \<in> directory w"
  shows "\<exists>k. map_of (m_sessions w) k = Some p \<and> account_of w p = Some k"
proof -
  let ?m = "map_of (m_sessions w)"
  have d: "distinct (map fst (m_sessions w))" using assms(1) by (simp add: dir_ok_def)
  have "p \<in> ran ?m"
  proof (cases "p \<in> set (m_QueuedSessions w)")
    case True
    then show ?thesis using assms(1) unfolding dir_ok_def by blast
  next
    case False
    with assms(2) obtain k where "(k, p) \<in> set (m_sessions w)"
      unfolding directory_def by auto
    with d have "?m k = Some p" by simp
    then show ?thesis unfolding ran_def by blast
  qed
  then obtain k where k: "?m k = Some p" unfolding ran_def by blast
  with assms(1) have "account_of w p = Some k" unfolding dir_ok_def by blast
  with k show ?thesis by blast
qed

lemma dir_ok_card:
  assumes "dir_ok w"
  shows "card (sessions_of w account) \<le> 1"
proof -
  have "p = p'" if "p \<in> sessions_of w account" "p' \<in> sessions_of w account" for p p'
  proof -
    from that have a: "p \<in> directory w" "account_of w p = Some account"
      and b: "p' \<in> directory w" "account_of w p' = Some account"
      by (simp_all add: sessions_of_def)
    from dir_ok_directory [OF assms a(1)] a(2)
    have "map_of (m_sessions w) account = Some p" by auto
    moreover from dir_ok_directory [OF assms b(1)] b(2)
    have "map_of (m_sessions w) account = Some p'" by auto
    ultimately show ?thesis by simp
  qed
  then have "sessions_of w account = {} \<or> (\<exists>p. sessions_of w account = {p})"
    by blast
  then show ?thesis by auto
qed

section \<open>Evaluating the scenario\<close>

lemmas eval_defs =
  scenario_A_begin_def connect_def SetPlayerLimit_def AddSession_def World_new_def plain_player_def UpdateSessions_def
  AddSession_impl_def RemoveSession_def RemoveQueuedSession_def AddQueuedSession_def
  GetQueuedSessionPos_def KickPlayer_def SendPacket_def SendAuthWaitQue_def SetInQueue_def
  delete_session_def UpdateMaxSessionCounters_def GetActiveAndQueuedSessionCount_def
  GetActiveSessionCount_def GetPlayerAmountLimit_def GetQueuedSessionCount_def emit_def
  NULL_def Let_def word_sless_alt word_sle_eq word_le_nat_alt word_less_nat_alt

lemma scenario_A_begin_reachable: "reachable scenario_A_begin"
  unfolding scenario_A_begin_def
  by (intro reachable.connect reachable.limit reachable.init)
     (simp_all add: connect_def AddSession_def SetPlayerLimit_def World_new_def NULL_def)

lemma scenario_A_eval:
  "map_option (\<lambda>w. (m_sessions w, m_QueuedSessions w, addSessQueue w, heap w 13, heap w 14, events w))
     (UpdateSessions (\<lambda>_. True) scenario_A_begin)
   = Some ([(1, 11), (2, 12), (3, 13)], [13], [], Some ((plain_player 3)\<lparr>inQueue := True\<rparr>), None,
       [AuthOk 11, PopulationUpdate 1 2, AuthOk 12, PopulationUpdate 2 2, AuthWaitQueue 13 1])"
  by (simp add: eval_defs)

lemma scenario_A_fields:
  "UpdateSessions (\<lambda>_. True) scenario_A_begin = Some scenario_A"
  "m_sessions scenario_A = [(1, 11), (2, 12), (3, 13)]"
  "m_QueuedSessions scenario_A = [13]"
  "addSessQueue scenario_A = []"
  "heap scenario_A 13 = Some ((plain_player 3)\<lparr>inQueue := True\<rparr>)"
  "heap scenario_A 14 = None"
  "events scenario_A =
     [AuthOk 11, PopulationUpdate 1 2, AuthOk 12, PopulationUpdate 2 2, AuthWaitQueue 13 1]"
  using scenario_A_eval by (auto simp: scenario_A_def)

text \<open>
  C1. In every reachable state the keys of the session map are unique, every session of
  the directory (map or queue) is live, and no account has more than one session in the
  directory. A tick's session update returns and leads to a reachable state. When the
  next pending session belongs to an account whose session in the map is not loading,
  \<open>AddSession_\<close> kicks the old session, then deletes it, and afterwards the old
  session is gone from the store and from the directory and the map holds the new
  session under the account.
\<close>

theorem one_session_per_account:
  assumes "reachable w"
  shows "distinct (map fst (m_sessions w))
     \<and> (\<forall>p \<in> directory w. heap w p \<noteq> None)
     \<and> (\<forall>account. card (sessions_of w account) \<le> 1)
     \<and> (\<exists>w'. UpdateSessions alive w = Some w' \<and> reachable w')
     \<and> (\<forall>s ss sess old osess.
          addSessQueue w = s # ss \<and> heap w s = Some sess
          \<and> map_of (m_sessions w) (accountId sess) = Some old
          \<and> heap w old = Some osess \<and> \<not> playerLoading osess \<longrightarrow>
          (\<exists>w' e1 e2. AddSession_impl s (w\<lparr>addSessQueue := ss\<rparr>) = Some w'
             \<and> reachable w'
             \<and> events w' = events w @ Kicked old # e1 @ Deleted old # e2
             \<and> heap w' old = None \<and> old \<notin> directory w'
             \<and> map_of (m_sessions w') (accountId sess) = Some s))"
proof -
  from reachable_directory_inv [OF assms]
  have ok: "dir_ok w" and pend: "pending_ok (addSessQueue w) w"
    by (simp_all add: directory_inv_def)
  have c1: "distinct (map fst (m_sessions w))" using ok by (simp add: dir_ok_def)
  have c2: "\<forall>p \<in> directory w. heap w p \<noteq> None"
    using dir_ok_directory [OF ok] by (fastforce simp: account_of_def)
  have c3: "\<forall>account. card (sessions_of w account) \<le> 1"
    using dir_ok_card [OF ok] by blast
  have c4: "\<exists>w' e1 e2. AddSession_impl s (w\<lparr>addSessQueue := ss\<rparr>) = Some w'
             \<and> reachable w'
             \<and> events w' = events w @ Kicked old # e1 @ Deleted old # e2
             \<and> heap w' old = None \<and> old \<notin> directory w'
             \<and> map_of (m_sessions w') (accountId sess) = Some s"
    if h: "addSessQueue w = s # ss" "heap w s = Some sess"
      "map_of (m_sessions w) (accountId sess) = Some old"
      "heap w old = Some osess" "\<not> playerLoading osess"
    for s ss sess old osess
  proof -
    let ?w0 = "w\<lparr>addSessQueue := ss\<rparr>"
    have ok0: "dir_ok ?w0" using ok by (simp add: dir_ok_def account_of_def)
    have pend0: "pending_ok (s # ss) ?w0" using pend h(1) by (simp add: pending_ok_def)
    have nr: "\<not> refused s ?w0" using h by (simp add: refused_def)
    from AddSession_impl_step [OF ok0 pend0] h(2) nr obtain w' where
      a: "AddSession_impl s ?w0 = Some w'" and ok': "dir_ok w'"
      and ad: "admitted_as s sess ?w0 w'"
      by auto
    from ad have m: "m_sessions w' = AList.update (accountId sess) s (m_sessions w)"
      and ho: "heap w' old = None"
      unfolding admitted_as_def Let_def using h(3) by simp_all
    from ad obtain e1 e2 where
      "events w' = events ?w0
        @ (case map_of (m_sessions ?w0) (accountId sess) of
             None \<Rightarrow> [] | Some p \<Rightarrow> Kicked p # e1 @ [Deleted p])
        @ e2"
      unfolding admitted_as_def Let_def by blast
    then have ev: "events w' = events w @ Kicked old # e1 @ Deleted old # e2"
      using h(3) by simp
    have r: "reachable w'" by (rule reachable.admit [OF assms h(1) a])
    have nd: "old \<notin> directory w'"
      using dir_ok_directory [OF ok', of old] ho by (auto simp: account_of_def)
    have ms: "map_of (m_sessions w') (accountId sess) = Some s"
      by (simp add: m update_conv')
    from a r ev ho nd ms show ?thesis by blast
  qed
  from UpdateSessions_ok [OF ok pend, of alive] obtain w' where
    u: "UpdateSessions alive w = Some w'" by blast
  have c5: "\<exists>w'. UpdateSessions alive w = Some w' \<and> reachable w'"
    using u reachable.update [OF assms u] by blast
  from c1 c2 c3 c4 c5 show ?thesis by blast
qed

theorem one_session_per_account_witness:
  "reachable reconnect_c
   \<and> m_sessions reconnect_c = [(1, 11), (2, 12), (3, 13)]
   \<and> m_QueuedSessions reconnect_c = [13]
   \<and> card (sessions_of reconnect_c 3) \<le> 1
   \<and> (\<exists>w' e1 e2. AddSession_impl 14 (reconnect_c\<lparr>addSessQueue := []\<rparr>) = Some w'
        \<and> events w' = events reconnect_c @ Kicked 13 # e1 @ Deleted 13 # e2
        \<and> heap w' 13 = None \<and> map_of (m_sessions w') 3 = Some 14)"
proof -
  have rA: "reachable scenario_A"
    by (rule reachable.update [OF scenario_A_begin_reachable scenario_A_fields(1)])
  have r: "reachable reconnect_c"
    unfolding reconnect_c_def
    by (rule reachable.connect [OF rA]) (simp_all add: NULL_def scenario_A_fields)
  have f: "addSessQueue reconnect_c = [14] \<and> heap reconnect_c 14 = Some (plain_player 3)
      \<and> map_of (m_sessions reconnect_c) (accountId (plain_player 3)) = Some 13
      \<and> heap reconnect_c 13 = Some ((plain_player 3)\<lparr>inQueue := True\<rparr>)
      \<and> \<not> playerLoading ((plain_player 3)\<lparr>inQueue := True\<rparr>)"
    by (simp add: reconnect_c_def connect_def AddSession_def scenario_A_fields plain_player_def)
  have g: "m_sessions reconnect_c = [(1, 11), (2, 12), (3, 13)]"
    "m_QueuedSessions reconnect_c = [13]"
    by (simp_all add: reconnect_c_def connect_def AddSession_def scenario_A_fields)
  from one_session_per_account [OF r, of "\<lambda>_. True"] f
  have "card (sessions_of reconnect_c 3) \<le> 1"
    and "\<exists>w' e1 e2. AddSession_impl 14 (reconnect_c\<lparr>addSessQueue := []\<rparr>) = Some w'
        \<and> reachable w'
        \<and> events w' = events reconnect_c @ Kicked 13 # e1 @ Deleted 13 # e2
        \<and> heap w' 13 = None \<and> 13 \<notin> directory w'
        \<and> map_of (m_sessions w') (accountId (plain_player 3)) = Some 14"
    by blast+
  then show ?thesis using r g by (auto simp: plain_player_def)
qed

lemma filter_others_all:
  "account \<notin> fst ` set ms \<Longrightarrow> filter (\<lambda>(k, p). k \<noteq> account) ms = ms"
  by (induction ms) auto

lemma length_update_others:
  "distinct (map fst ms) \<Longrightarrow>
   length (AList.update account s ms) = length (filter (\<lambda>(k, p). k \<noteq> account) ms) + 1"
proof (induction ms)
  case Nil
  then show ?case by simp
next
  case (Cons x xs)
  show ?case
  proof (cases "fst x = account")
    case True
    with Cons.prems have "account \<notin> fst ` set xs" by auto
    with True show ?thesis by (cases x) (simp add: filter_others_all)
  next
    case False
    with Cons show ?thesis by (cases x) simp
  qed
qed

lemma queues_nat:
  assumes d: "distinct (map fst (m_sessions w))"
    and n: "length (m_sessions w) < 2 ^ 32 - 1"
  shows "queues s sess (decrease_session_of w (accountId sess)) w \<longleftrightarrow>
     0 < unat (GetPlayerAmountLimit w)
     \<and> unat (GetPlayerAmountLimit w) \<le> effective_count w (accountId sess)
     \<and> security sess = SEC_PLAYER"
proof -
  let ?acc = "accountId sess"
  let ?o = "length (filter (\<lambda>(k, p). k \<noteq> ?acc) (m_sessions w))"
  let ?L = "GetPlayerAmountLimit w"
  have "?o \<le> length (m_sessions w)" by (rule length_filter_le)
  with n have o: "?o + 1 < 2 ^ 32" by linarith
  have len: "length (AList.update ?acc s (m_sessions w)) = ?o + 1"
    by (rule length_update_others [OF d])
  have u1: "unat (of_nat (?o + 1) :: uint32) = ?o + 1"
    using o by (simp add: unat_of_nat del: of_nat_add of_nat_Suc)
  have "unat (of_nat ?o :: uint32) = ?o"
    using o by (simp add: unat_of_nat)
  then have u0: "unat (of_nat (?o + 1) - 1 :: uint32) = ?o"
    by simp
  have e: "effective_count w ?acc = ?o + (if decrease_session_of w ?acc then 0 else 1)"
    by (simp add: effective_count_def claimed_count_def decrease_session_of_def
        split: option.splits)
  have pos: "0 < ?L \<longleftrightarrow> 0 < unat ?L" by (simp add: word_less_nat_alt)
  show ?thesis
  proof (cases "decrease_session_of w ?acc")
    case True
    then show ?thesis
      unfolding queues_def Let_def
      using u0 e pos
      by (simp add: GetActiveAndQueuedSessionCount_def len word_le_nat_alt
          del: of_nat_add of_nat_Suc)
  next
    case False
    then show ?thesis
      unfolding queues_def Let_def
      using u1 e pos
      by (simp add: GetActiveAndQueuedSessionCount_def len word_le_nat_alt
          del: of_nat_add of_nat_Suc)
  qed
qed

text \<open>
  C2, as amended. A call of \<open>AddSession_\<close> for a pending session on a well-formed
  directory, not refused for a loading session of its account, returns with the session
  in the map. It puts the session at the tail of the queue, marked queued and told its
  position there, exactly when the amount limit is positive, the count
  \<open>effective_count\<close> is at least the limit and the session's tier is \<open>SEC_PLAYER\<close>;
  otherwise the session is sent \<open>AUTH_OK\<close> and is not queued. That count is the one
  without the candidate, except that a candidate which replaces a queued session of its
  account is counted. With limit 2 and sessions a, b, c handed over in this order, a and
  b get \<open>AUTH_OK\<close> and c is queued at position 1.
\<close>

theorem admission_decision:
  assumes ok: "dir_ok w" and pend: "pending_ok (s # ss) w"
    and hs: "heap w s = Some sess"
    and nr: "\<not> refused s w"
    and n: "length (m_sessions w) < 2 ^ 32 - 1"
  shows "\<exists>w'. AddSession_impl s w = Some w'
     \<and> (let limit = unat (GetPlayerAmountLimit w);
             queued = (0 < limit \<and> limit \<le> effective_count w (accountId sess)
                        \<and> security sess = SEC_PLAYER)
         in map_of (m_sessions w') (accountId sess) = Some s
          \<and> (s \<in> set (m_QueuedSessions w') \<longleftrightarrow> queued)
          \<and> (if queued
              then last (m_QueuedSessions w') = s
                 \<and> last (events w') = AuthWaitQueue s (of_nat (length (m_QueuedSessions w')))
                 \<and> heap w' s = Some (sess\<lparr>inQueue := True\<rparr>)
              else AuthOk s \<in> set (drop (length (events w)) (events w'))
                 \<and> heap w' s = Some sess))"
proof -
  let ?acc = "accountId sess"
  let ?Q = "queues s sess (decrease_session_of w ?acc) w"
  from AddSession_impl_step [OF ok pend] hs nr obtain w' where
    a: "AddSession_impl s w = Some w'" and ad: "admitted_as s sess w w'"
    by auto
  from ad obtain q1 e1 where
    m: "m_sessions w' = AList.update ?acc s (m_sessions w)"
    and q1: "s \<notin> set q1" "m_QueuedSessions w' = (if ?Q then q1 @ [s] else q1)"
    and ev: "events w' = events w
        @ (case map_of (m_sessions w) ?acc of None \<Rightarrow> [] | Some p \<Rightarrow> Kicked p # e1 @ [Deleted p])
        @ (if ?Q then [AuthWaitQueue s (of_nat (length q1) + 1)]
           else AuthOk s #
             (if GetPlayerAmountLimit w > 0
              then [PopulationUpdate
                      (of_nat (length (AList.update ?acc s (m_sessions w))) - of_nat (length q1))
                      (GetPlayerAmountLimit w)]
              else []))"
    and h: "heap w' s = Some (if ?Q then sess\<lparr>inQueue := True\<rparr> else sess)"
    unfolding admitted_as_def Let_def by blast
  have d: "distinct (map fst (m_sessions w))" using ok by (simp add: dir_ok_def)
  have Q: "?Q \<longleftrightarrow> 0 < unat (GetPlayerAmountLimit w)
     \<and> unat (GetPlayerAmountLimit w) \<le> effective_count w ?acc \<and> security sess = SEC_PLAYER"
    by (rule queues_nat [OF d n])
  have c1: "map_of (m_sessions w') ?acc = Some s" by (simp add: m update_conv')
  have c2: "s \<in> set (m_QueuedSessions w') \<longleftrightarrow> ?Q" using q1 by simp
  have c3: "?Q \<Longrightarrow> last (m_QueuedSessions w') = s
      \<and> last (events w') = AuthWaitQueue s (of_nat (length (m_QueuedSessions w')))
      \<and> heap w' s = Some (sess\<lparr>inQueue := True\<rparr>)"
    using q1 ev h by (simp add: add.commute)
  have c4: "\<not> ?Q \<Longrightarrow> AuthOk s \<in> set (drop (length (events w)) (events w'))
      \<and> heap w' s = Some sess"
    using ev h by simp
  show ?thesis
    apply (rule exI [of _ w'])
    unfolding Let_def Q [symmetric]
    using a c1 c2 c3 c4 by simp
qed

theorem admission_decision_witness:
  "map_option events (UpdateSessions (\<lambda>_. True) scenario_A_begin)
     = Some [AuthOk 11, PopulationUpdate 1 2, AuthOk 12, PopulationUpdate 2 2,
             AuthWaitQueue 13 1]
   \<and> (\<exists>w'. AddSession_impl 13 two_admitted = Some w'
        \<and> m_QueuedSessions w' = [13]
        \<and> last (events w') = AuthWaitQueue 13 1)"
proof -
  have ok: "dir_ok two_admitted"
    by (simp add: dir_ok_def two_admitted_def World_new_def account_of_def plain_player_def NULL_def)
  have pend: "pending_ok [13] two_admitted"
    by (simp add: pending_ok_def two_admitted_def World_new_def NULL_def ran_def)
  have hs: "heap two_admitted 13 = Some (plain_player 3)"
    by (simp add: two_admitted_def)
  have nr: "\<not> refused 13 two_admitted"
    by (simp add: refused_def two_admitted_def plain_player_def)
  have n: "length (m_sessions two_admitted) < 2 ^ 32 - 1"
    by (simp add: two_admitted_def)
  have e: "effective_count two_admitted 3 = 2" "unat (GetPlayerAmountLimit two_admitted) = 2"
    by (simp_all add: effective_count_def claimed_count_def two_admitted_def
        GetPlayerAmountLimit_def World_new_def word_sle_eq)
  from admission_decision [OF ok pend hs nr n] obtain w' where
    "AddSession_impl 13 two_admitted = Some w'"
    "13 \<in> set (m_QueuedSessions w')"
    "last (m_QueuedSessions w') = 13"
    "last (events w') = AuthWaitQueue 13 (of_nat (length (m_QueuedSessions w')))"
    using e by (auto simp: Let_def plain_player_def)
  moreover have "map_option m_QueuedSessions (AddSession_impl 13 two_admitted) = Some [13]"
    by (simp add: two_admitted_def eval_defs)
  ultimately show ?thesis
    using scenario_A_fields(1,7) by auto
qed

lemma reconnect_c_reachable: "reachable reconnect_c"
proof -
  have rA: "reachable scenario_A"
    by (rule reachable.update [OF scenario_A_begin_reachable scenario_A_fields(1)])
  show ?thesis
    unfolding reconnect_c_def
    by (rule reachable.connect [OF rA]) (simp_all add: NULL_def scenario_A_fields)
qed

lemmas eval_more =
  raised_limit_def reconnect_c_def scenario_A_def neg_limit_def neg_limit_begin_def
  claimed_count_def capacity_left_def eval_defs

text \<open>
  C2 as the claim states it fails: after the limit of scenario A has been raised to 3
  (a reachable state), the plain player reconnecting on the queued account 3 finds two
  sessions of other accounts, fewer than the limit, and is queued at position 1 all the
  same.
\<close>

theorem claimed_count_counterexample:
  "reachable (SetPlayerLimit 3 reconnect_c)
   \<and> addSessQueue (SetPlayerLimit 3 reconnect_c) = [14]
   \<and> unat (GetPlayerAmountLimit raised_limit) = 3
   \<and> claimed_count raised_limit 3 = 2
   \<and> heap raised_limit 14 = Some (plain_player 3)
   \<and> security (plain_player 3) = SEC_PLAYER
   \<and> map_option (\<lambda>w. (m_sessions w, m_QueuedSessions w, last (events w)))
        (AddSession_impl 14 raised_limit)
       = Some ([(1, 11), (2, 12), (3, 14)], [14], AuthWaitQueue 14 1)"
  using reachable.limit [OF reconnect_c_reachable, of 3]
  by (simp add: eval_more)

section \<open>Release under a negative limit\<close>



end
